theory Spec2Isabelle
  imports Main "HOL-Library.AList"
begin

section \<open>Go library functions on strings\<close>

text \<open>
  A Go string is a sequence of bytes; it is modelled as \<open>string\<close> (a list of 8-bit
  characters). The functions of package \<open>strings\<close> that the repository calls are
  written out as the Go library defines them.
\<close>

definition HasPrefix :: "string \<Rightarrow> string \<Rightarrow> bool" where
  "HasPrefix s p = (length p \<le> length s \<and> take (length p) s = p)"

definition HasSuffix :: "string \<Rightarrow> string \<Rightarrow> bool" where
  "HasSuffix s suf = (length suf \<le> length s \<and> drop (length s - length suf) s = suf)"

definition TrimPrefix :: "string \<Rightarrow> string \<Rightarrow> string" where
  "TrimPrefix s p = (if HasPrefix s p then drop (length p) s else s)"

definition TrimSuffix :: "string \<Rightarrow> string \<Rightarrow> string" where
  "TrimSuffix s suf = (if HasSuffix s suf then take (length s - length suf) s else s)"

text \<open>
  \<open>strings.Split(s, sep)\<close> for a separator of one byte, the only way the repository calls
  it (\<open>"_"\<close> and \<open>"/"\<close>): the text between the occurrences of the separator, so a string
  with \<open>n\<close> separators gives \<open>n + 1\<close> parts and the empty string gives one empty part.
  (The recursive call never returns the empty list; the first branch of the \<open>case\<close> is
  there to make it total.)
\<close>

fun Split :: "string \<Rightarrow> char \<Rightarrow> string list" where
  "Split [] sep = [[]]"
| "Split (c # cs) sep =
     (if c = sep then [] # Split cs sep
      else (case Split cs sep of
              [] \<Rightarrow> [[c]]
            | p # ps \<Rightarrow> (c # p) # ps))"

fun Join :: "string list \<Rightarrow> string \<Rightarrow> string" where
  "Join [] sep = []"
| "Join [x] sep = x"
| "Join (x # y # ys) sep = x @ sep @ Join (y # ys) sep"

text \<open>
  \<open>strings.TrimSpace\<close> removes leading and trailing white space. The ASCII white space
  of Go is tab, line feed, vertical tab, form feed, carriage return and space; white space
  outside ASCII (several bytes in UTF-8) is not modelled, since hash tokens are ASCII.
\<close>

definition is_space :: "char \<Rightarrow> bool" where
  "is_space c = (c = CHR 0x09 \<or> c = CHR 0x0A \<or> c = CHR 0x0B \<or> c = CHR 0x0C
                 \<or> c = CHR 0x0D \<or> c = CHR '' '')"

definition TrimSpace :: "string \<Rightarrow> string" where
  "TrimSpace s = rev (dropWhile is_space (rev (dropWhile is_space s)))"

text \<open>The verb \<open>%d\<close> of \<open>fmt\<close> on a number that is not negative: its decimal digits.\<close>

fun fmt_d :: "nat \<Rightarrow> string" where
  "fmt_d n = (if n < 10 then [''0123456789'' ! n]
              else fmt_d (n div 10) @ [''0123456789'' ! (n mod 10)])"

declare fmt_d.simps [simp del]

section \<open>Filename codec (package registry)\<close>

text \<open>
  The archive name that \<open>Registry.ProviderVersion\<close> writes into a version document:
  \<open>fmt.Sprintf("terraform-provider-%s_%s_%s_%s.zip", name, version, p.OS, p.Arch)\<close>.
\<close>

definition archive_filename :: "string \<Rightarrow> string \<Rightarrow> string \<Rightarrow> string \<Rightarrow> string" where
  "archive_filename name version os arch =
     ''terraform-provider-'' @ name @ ''_'' @ version @ ''_'' @ os @ ''_'' @ arch @ ''.zip''"

text \<open>
  \<open>ParseZipFilename\<close>. A Go error made by \<open>fmt.Errorf\<close> is its message; the four results
  are a tuple in the order (name, version, os, arch).
\<close>

definition ParseZipFilename :: "string \<Rightarrow> string + (string \<times> string \<times> string \<times> string)" where
  "ParseZipFilename filename0 =
     (let filename1 = TrimSuffix filename0 ''.zip'' in
      if \<not> HasPrefix filename1 ''terraform-provider-'' then Inl ''invalid filename format''
      else
        let filename2 = TrimPrefix filename1 ''terraform-provider-'';
            parts = Split filename2 CHR ''_'';
            n = length parts
        in if n < 4 then Inl ''invalid filename format: not enough parts''
           else
             let arch = parts ! (n - 1);
                 os = parts ! (n - 2);
                 version = parts ! (n - 3);
                 name = Join (take (n - 3) parts) ''_''
             in Inr (name, version, os, arch))"

section \<open>The file system below the cache directory\<close>

text \<open>
  The hash cache keeps its records in files, so the part of the operating system that
  package \<open>cache\<close> calls is modelled. A cleaned path is kept as its components together
  with a flag for a leading slash, as \<open>filepath.Clean\<close> computes them: empty components
  and \<open>.\<close> are dropped, \<open>..\<close> removes the component before it, is dropped at the root, and
  stays at the front of a relative path. A file system is an association list from cleaned
  paths to nodes, read through \<open>map_of\<close>; the root and the working directory (no
  components) always exist. Relative paths that climb above the working directory are kept
  as keys of their own.
\<close>

type_synonym fpath = "bool \<times> string list"

datatype node = File string | Dir

type_synonym filesystem = "(fpath \<times> node) list"

datatype os_error = ENOENT | ENOTDIR | EISDIR | EIO

text \<open>
  A system call can also fail for a reason outside the model (permissions, a full disk).
  Such a failure is a parameter of the call: creating a directory fails, opening the file
  for writing fails, or the write stops after \<open>n\<close> bytes and leaves them in the file.
\<close>

datatype os_fault = NoFault | MkdirFault | OpenFault | WriteFault nat

fun clean_step :: "bool \<Rightarrow> string list \<Rightarrow> string \<Rightarrow> string list" where
  "clean_step rooted out c =
     (if c = [] \<or> c = ''.'' then out
      else if c = ''..'' then
        (case out of
           [] \<Rightarrow> (if rooted then [] else [''..''])
         | t # ts \<Rightarrow> (if t = ''..'' then c # t # ts else ts))
      else c # out)"

definition Clean :: "string \<Rightarrow> fpath" where
  "Clean p =
     (let rooted = HasPrefix p ''/''
      in (rooted, rev (foldl (clean_step rooted) [] (Split p CHR ''/''))))"

text \<open>
  \<open>filepath.Join\<close> skips the leading empty elements, joins the rest with a slash and
  cleans the result. (With no element left Go returns the empty string; the repository
  always passes the element \<open>hashes\<close>.)
\<close>

definition filepath_Join :: "string list \<Rightarrow> fpath" where
  "filepath_Join elem = Clean (Join (dropWhile (\<lambda>e. e = []) elem) ''/'')"

definition filepath_Dir :: "fpath \<Rightarrow> fpath" where
  "filepath_Dir p = (fst p, butlast (snd p))"

definition is_dir :: "filesystem \<Rightarrow> fpath \<Rightarrow> bool" where
  "is_dir fs p = (snd p = [] \<or> map_of fs p = Some Dir)"

fun mkdir_each :: "filesystem \<Rightarrow> bool \<Rightarrow> string list \<Rightarrow> string list \<Rightarrow> os_error + filesystem" where
  "mkdir_each fs r pre [] = Inr fs"
| "mkdir_each fs r pre (c # cs) =
     (case map_of fs (r, pre @ [c]) of
        Some (File d) \<Rightarrow> Inl ENOTDIR
      | Some Dir \<Rightarrow> mkdir_each fs r (pre @ [c]) cs
      | None \<Rightarrow> mkdir_each (AList.update (r, pre @ [c]) Dir fs) r (pre @ [c]) cs)"

text \<open>
  \<open>os.MkdirAll\<close>: nothing to do when the directory exists; otherwise every missing
  directory on the way is created, and a file on the way is an error.
\<close>

definition MkdirAll :: "filesystem \<Rightarrow> os_fault \<Rightarrow> fpath \<Rightarrow> os_error + filesystem" where
  "MkdirAll fs fault p =
     (if is_dir fs p then Inr fs
      else if fault = MkdirFault then Inl EIO
      else mkdir_each fs (fst p) [] (snd p))"

definition WriteFile :: "filesystem \<Rightarrow> os_fault \<Rightarrow> fpath \<Rightarrow> string \<Rightarrow> os_error option \<times> filesystem" where
  "WriteFile fs fault p data =
     (if is_dir fs p then (Some EISDIR, fs)
      else if \<not> is_dir fs (filepath_Dir p) then (Some ENOENT, fs)
      else (case fault of
              OpenFault \<Rightarrow> (Some EIO, fs)
            | WriteFault n \<Rightarrow> (Some EIO, AList.update p (File (take n data)) fs)
            | _ \<Rightarrow> (None, AList.update p (File data) fs)))"

definition ReadFile :: "filesystem \<Rightarrow> fpath \<Rightarrow> os_error + string" where
  "ReadFile fs p =
     (case map_of fs p of
        Some (File d) \<Rightarrow> Inr d
      | Some Dir \<Rightarrow> Inl EISDIR
      | None \<Rightarrow> (if snd p = [] then Inl EISDIR else Inl ENOENT))"

text \<open>
  \<open>os.ReadDir\<close>: the entries of a directory, each with its name and its kind. Go returns
  them sorted by name; the only caller stores them in a map, so the order is left as the
  association list has it.
\<close>

definition ReadDir :: "filesystem \<Rightarrow> fpath \<Rightarrow> os_error + (string \<times> node) list" where
  "ReadDir fs d =
     (if is_dir fs d
      then Inr [(last (snd p), n). (p, n) \<leftarrow> fs, map_of fs p = Some n, fst p = fst d,
                                  snd p \<noteq> [], butlast (snd p) = snd d]
      else Inl ENOENT)"

section \<open>Hash cache (package cache)\<close>

record HashCache =
  baseDir :: string

definition keyToPath :: "HashCache \<Rightarrow> string \<Rightarrow> string \<Rightarrow> string \<Rightarrow> string \<Rightarrow> fpath" where
  "keyToPath c namespace name version platform =
     (let filename = version @ ''_'' @ platform @ ''.h1''
      in filepath_Join [baseDir c, ''hashes'', namespace, name, filename])"

definition Get :: "HashCache \<Rightarrow> filesystem \<Rightarrow> string \<Rightarrow> string \<Rightarrow> string \<Rightarrow> string \<Rightarrow> string \<times> bool" where
  "Get c fs namespace name version platform =
     (let path = keyToPath c namespace name version platform
      in case ReadFile fs path of
           Inl err \<Rightarrow> ([], False)
         | Inr data \<Rightarrow> (TrimSpace data, True))"

text \<open>\<open>Set\<close> returns its error, if any, and the file system it leaves.\<close>

definition Set :: "HashCache \<Rightarrow> filesystem \<Rightarrow> os_fault \<Rightarrow> string \<Rightarrow> string \<Rightarrow> string \<Rightarrow> string \<Rightarrow> string
                   \<Rightarrow> os_error option \<times> filesystem" where
  "Set c fs fault namespace name version platform hash =
     (let path = keyToPath c namespace name version platform
      in case MkdirAll fs fault (filepath_Dir path) of
           Inl err \<Rightarrow> (Some err, fs)
         | Inr fs1 \<Rightarrow> WriteFile fs1 fault path hash)"

text \<open>
  The loop of \<open>GetAll\<close> over the directory entries; \<open>filepath.Join(dir, filename)\<close> of
  a cleaned directory and an entry name adds the name as the last component.
\<close>

fun GetAll_entries :: "filesystem \<Rightarrow> fpath \<Rightarrow> string \<Rightarrow> string \<Rightarrow> (string \<times> node) list
                       \<Rightarrow> (string \<rightharpoonup> string) \<Rightarrow> (string \<rightharpoonup> string)" where
  "GetAll_entries fs dir pre suf [] result = result"
| "GetAll_entries fs dir pre suf ((filename, n) # entries) result =
     (if n = Dir then GetAll_entries fs dir pre suf entries result
      else if \<not> HasPrefix filename pre \<or> \<not> HasSuffix filename suf
      then GetAll_entries fs dir pre suf entries result
      else
        let platform = TrimSuffix (TrimPrefix filename pre) suf
        in case ReadFile fs (fst dir, snd dir @ [filename]) of
             Inl err \<Rightarrow> GetAll_entries fs dir pre suf entries result
           | Inr data \<Rightarrow>
               GetAll_entries fs dir pre suf entries (result(platform \<mapsto> TrimSpace data)))"

definition GetAll :: "HashCache \<Rightarrow> filesystem \<Rightarrow> string \<Rightarrow> string \<Rightarrow> string \<Rightarrow> (string \<rightharpoonup> string)" where
  "GetAll c fs namespace name version =
     (let dir = filepath_Join [baseDir c, ''hashes'', namespace, name]
      in case ReadDir fs dir of
           Inl err \<Rightarrow> Map.empty
         | Inr entries \<Rightarrow> GetAll_entries fs dir (version @ ''_'') ''.h1'' entries Map.empty)"

section \<open>Mirror translator (package registry)\<close>

record RegistryPlatform =
  OS :: string
  Arch :: string

record RegistryVersion =
  Version :: string
  Platforms :: "RegistryPlatform list"

record RegistryVersionsResponse =
  Versions :: "RegistryVersion list"

record RegistryDownloadResponse =
  DownloadURL_r :: string
  Filename :: string
  SHA256Sum :: string

text \<open>
  The two documents of the mirror protocol. A Go map that is marshalled is an association
  list with distinct keys, written with \<open>AList.update\<close>; a nil slice and an empty slice
  are both the empty list.
\<close>

record MirrorArchive =
  URL :: string
  Hashes :: "string list"

record MirrorVersionsResponse =
  Versions_m :: "(string \<times> unit) list"

record MirrorVersionResponse =
  Archives :: "(string \<times> MirrorArchive) list"

text \<open>
  \<open>json.Marshal\<close> is modelled up to the JSON value it writes (the members of an object
  are unordered; Go writes the keys of a map sorted). The tag \<open>omitempty\<close> of
  \<open>Hashes\<close> leaves the member out when the slice has no element.
\<close>

datatype json = JString string | JArray "json list" | JObject "(string \<times> json) list"

definition Marshal_MirrorArchive :: "MirrorArchive \<Rightarrow> json" where
  "Marshal_MirrorArchive a =
     JObject ((''url'', JString (URL a))
              # (if Hashes a = [] then [] else [(''hashes'', JArray (map JString (Hashes a)))]))"

definition Marshal_MirrorVersionResponse :: "MirrorVersionResponse \<Rightarrow> json" where
  "Marshal_MirrorVersionResponse r =
     JObject [(''archives'', JObject (map (\<lambda>(k, a). (k, Marshal_MirrorArchive a)) (Archives r)))]"

definition Marshal_MirrorVersionsResponse :: "MirrorVersionsResponse \<Rightarrow> json" where
  "Marshal_MirrorVersionsResponse r =
     JObject [(''versions'', JObject (map (\<lambda>(k, u). (k, JObject [])) (Versions_m r)))]"

text \<open>
  The world outside the process, as one request sees it. \<open>GetJSON\<close> is the answer of the
  origin registry to \<open>upstream.Client.GetJSON\<close> for a path: an error message, or the body
  and the status code. \<open>Unmarshal_versions\<close> and \<open>Unmarshal_download\<close> are
  \<open>json.Unmarshal\<close> into the two response types. \<open>Do\<close> is the GET of a download URL.
  \<open>CalculateH1\<close> is the function of package \<open>hash\<close>, whose source is not part of the
  files at hand: it is a parameter, applied to the content of the spooled file. The
  remaining fields are the faults of the temporary file and of the cache directory.
\<close>

record http_response =
  StatusCode :: nat
  ContentLength :: int
  ContentLength_header :: string
  Body :: string
  Body_err :: "string option"

datatype fetched = NewRequestError string | DoError string | Response http_response

record env =
  GetJSON :: "string \<Rightarrow> string + (string \<times> nat)"
  Unmarshal_versions :: "string \<Rightarrow> string + RegistryVersionsResponse"
  Unmarshal_download :: "string \<Rightarrow> string + RegistryDownloadResponse"
  Do :: "string \<Rightarrow> fetched"
  CalculateH1 :: "string \<Rightarrow> string + string"
  CreateTemp_err :: "string option"
  temp_Write_err :: "string option"
  temp_Seek_err :: "string option"
  cache_fault :: os_fault

text \<open>The requests a call sends out, in order.\<close>

datatype event = OriginGET string | DownloadGET string

definition ProviderVersions :: "env \<Rightarrow> string \<Rightarrow> string \<Rightarrow> (string + json) \<times> event list" where
  "ProviderVersions e namespace name =
     (let path = ''/v1/providers/'' @ namespace @ ''/'' @ name @ ''/versions''
      in (case GetJSON e path of
            Inl err \<Rightarrow> Inl (''fetching versions: '' @ err)
          | Inr (body, statusCode) \<Rightarrow>
              if statusCode \<noteq> 200 then Inl (''upstream returned status '' @ fmt_d statusCode)
              else (case Unmarshal_versions e body of
                      Inl err \<Rightarrow> Inl (''parsing response: '' @ err)
                    | Inr registryResp \<Rightarrow>
                        Inr (Marshal_MirrorVersionsResponse
                              \<lparr>Versions_m = foldl (\<lambda>m v. AList.update (Version v) () m) []
                                                   (Versions registryResp)\<rparr>)),
          [OriginGET path]))"

text \<open>The body of the loop over the platforms of the version that was found.\<close>

definition add_archive :: "string \<Rightarrow> string \<Rightarrow> (string \<rightharpoonup> string) \<Rightarrow> (string \<times> MirrorArchive) list
                           \<Rightarrow> RegistryPlatform \<Rightarrow> (string \<times> MirrorArchive) list" where
  "add_archive name version cachedHashes archives p =
     (let platform = OS p @ ''_'' @ Arch p;
          filename = archive_filename name version (OS p) (Arch p);
          archive = \<lparr>URL = filename,
                     Hashes = (case cachedHashes platform of Some h1 \<Rightarrow> [h1] | None \<Rightarrow> [])\<rparr>
      in AList.update platform archive archives)"

definition ProviderVersion :: "env \<Rightarrow> HashCache \<Rightarrow> filesystem \<Rightarrow> string \<Rightarrow> string \<Rightarrow> string
                               \<Rightarrow> (string + json) \<times> event list" where
  "ProviderVersion e c fs namespace name version =
     (let path = ''/v1/providers/'' @ namespace @ ''/'' @ name @ ''/versions''
      in (case GetJSON e path of
            Inl err \<Rightarrow> Inl (''fetching versions: '' @ err)
          | Inr (body, statusCode) \<Rightarrow>
              if statusCode \<noteq> 200 then Inl (''upstream returned status '' @ fmt_d statusCode)
              else (case Unmarshal_versions e body of
                      Inl err \<Rightarrow> Inl (''parsing response: '' @ err)
                    | Inr registryResp \<Rightarrow>
                        (case find (\<lambda>v. Version v = version) (Versions registryResp) of
                           None \<Rightarrow> Inl (''version '' @ version @ '' not found'')
                         | Some targetVersion \<Rightarrow>
                             let cachedHashes = GetAll c fs namespace name version
                             in Inr (Marshal_MirrorVersionResponse
                                      \<lparr>Archives = foldl (add_archive name version cachedHashes) []
                                                         (Platforms targetVersion)\<rparr>))),
          [OriginGET path]))"

definition DownloadURL :: "env \<Rightarrow> string \<Rightarrow> string \<Rightarrow> string \<Rightarrow> string \<Rightarrow> string
                           \<Rightarrow> (string + string) \<times> event list" where
  "DownloadURL e namespace name version os arch =
     (let path = ''/v1/providers/'' @ namespace @ ''/'' @ name @ ''/'' @ version
                 @ ''/download/'' @ os @ ''/'' @ arch
      in (case GetJSON e path of
            Inl err \<Rightarrow> Inl (''fetching download URL: '' @ err)
          | Inr (body, statusCode) \<Rightarrow>
              if statusCode \<noteq> 200 then Inl (''upstream returned status '' @ fmt_d statusCode)
              else (case Unmarshal_download e body of
                      Inl err \<Rightarrow> Inl (''parsing response: '' @ err)
                    | Inr downloadResp \<Rightarrow> Inr (DownloadURL_r downloadResp)),
          [OriginGET path]))"

section \<open>HTTP handlers (package server)\<close>

text \<open>
  What a handler leaves in the \<open>http.ResponseWriter\<close>: the status, the headers the code
  sets, and the body, which is bytes or a marshalled document. \<open>http.Error\<close> sets the
  two headers of a plain-text reply and writes the message and a line feed. Calls to the
  logger are left out: they return nothing to the caller.
\<close>

datatype payload = Bytes string | Document json

record response =
  status :: nat
  headers :: "(string \<times> string) list"
  body :: payload

definition http_Error :: "string \<Rightarrow> nat \<Rightarrow> response" where
  "http_Error msg code =
     \<lparr>status = code,
      headers = [(''Content-Type'', ''text/plain; charset=utf-8''),
                 (''X-Content-Type-Options'', ''nosniff'')],
      body = Bytes (msg @ [CHR 0x0A])\<rparr>"

definition handleVersions :: "env \<Rightarrow> string \<Rightarrow> string \<Rightarrow> response \<times> event list" where
  "handleVersions e namespace name =
     (case ProviderVersions e namespace name of
        (Inl err, tr) \<Rightarrow> (http_Error err 502, tr)
      | (Inr data, tr) \<Rightarrow>
          (\<lparr>status = 200, headers = [(''Content-Type'', ''application/json'')],
            body = Document data\<rparr>, tr))"

definition handleVersion :: "env \<Rightarrow> HashCache \<Rightarrow> filesystem \<Rightarrow> string \<Rightarrow> string \<Rightarrow> string
                             \<Rightarrow> response \<times> event list" where
  "handleVersion e c fs namespace name version =
     (case ProviderVersion e c fs namespace name version of
        (Inl err, tr) \<Rightarrow> (http_Error err 502, tr)
      | (Inr data, tr) \<Rightarrow>
          (\<lparr>status = 200, headers = [(''Content-Type'', ''application/json'')],
            body = Document data\<rparr>, tr))"

text \<open>
  \<open>downloadWithHash\<close>: the body of the origin's response goes to a temporary file, whose
  content is then what was written; the hash of that content is computed and stored; the
  file is read again from its start and sent. The result is the response and the file
  system of the cache afterwards.
\<close>

definition downloadWithHash :: "env \<Rightarrow> HashCache \<Rightarrow> filesystem \<Rightarrow> http_response \<Rightarrow> string \<Rightarrow> string
                                \<Rightarrow> string \<Rightarrow> string \<Rightarrow> response \<times> filesystem" where
  "downloadWithHash e c fs resp namespace name version platform =
     (case CreateTemp_err e of
        Some err \<Rightarrow> (http_Error ''internal error'' 500, fs)
      | None \<Rightarrow>
          if Body_err resp \<noteq> None \<or> temp_Write_err e \<noteq> None
          then (http_Error ''download error'' 502, fs)
          else
            let written = length (Body resp);
                fs1 = (case CalculateH1 e (Body resp) of
                         Inl err \<Rightarrow> fs
                       | Inr h1 \<Rightarrow> snd (Set c fs (cache_fault e) namespace name version platform h1))
            in (case temp_Seek_err e of
                  Some err \<Rightarrow> (http_Error ''internal error'' 500, fs1)
                | None \<Rightarrow>
                    (\<lparr>status = 200,
                      headers = [(''Content-Type'', ''application/zip''),
                                 (''Content-Length'', fmt_d written)],
                      body = Bytes (Body resp)\<rparr>, fs1)))"

definition handleDownload :: "env \<Rightarrow> HashCache \<Rightarrow> filesystem \<Rightarrow> string \<Rightarrow> string \<Rightarrow> string
                              \<Rightarrow> response \<times> filesystem \<times> event list" where
  "handleDownload e c fs namespace providerName filename =
     (case ParseZipFilename filename of
        Inl err \<Rightarrow> (http_Error err 400, fs, [])
      | Inr (name, version, osName, arch) \<Rightarrow>
          let platform = osName @ ''_'' @ arch;
              hasHash = snd (Get c fs namespace name version platform)
          in (case DownloadURL e namespace name version osName arch of
                (Inl err, tr) \<Rightarrow> (http_Error err 502, fs, tr)
              | (Inr downloadURL, tr) \<Rightarrow>
                  (case Do e downloadURL of
                     NewRequestError err \<Rightarrow> (http_Error err 500, fs, tr)
                   | DoError err \<Rightarrow> (http_Error err 502, fs, tr @ [DownloadGET downloadURL])
                   | Response resp \<Rightarrow>
                       if StatusCode resp \<noteq> 200
                       then (http_Error ''download failed'' (StatusCode resp), fs,
                             tr @ [DownloadGET downloadURL])
                       else if \<not> hasHash
                       then (case downloadWithHash e c fs resp namespace name version platform of
                               (r, fs1) \<Rightarrow> (r, fs1, tr @ [DownloadGET downloadURL]))
                       else
                         (\<lparr>status = 200,
                           headers = (''Content-Type'', ''application/zip'')
                                     # (if ContentLength resp > 0
                                        then [(''Content-Length'', ContentLength_header resp)]
                                        else []),
                           body = Bytes (Body resp)\<rparr>, fs, tr @ [DownloadGET downloadURL]))))"

definition handleProviders :: "env \<Rightarrow> HashCache \<Rightarrow> filesystem \<Rightarrow> string
                               \<Rightarrow> response \<times> filesystem \<times> event list" where
  "handleProviders e c fs url_path =
     (let path = TrimPrefix url_path ''/v1/providers/'';
          parts = Split path CHR ''/''
      in if length parts < 4 then (http_Error ''invalid path'' 400, fs, [])
         else
           let hostname = parts ! 0;
               namespace = parts ! 1;
               name = parts ! 2;
               file = parts ! 3
           in if file = ''index.json''
              then (case handleVersions e namespace name of (r, tr) \<Rightarrow> (r, fs, tr))
              else if HasSuffix file ''.json''
              then (let version = TrimSuffix file ''.json''
                    in case handleVersion e c fs namespace name version of (r, tr) \<Rightarrow> (r, fs, tr))
              else if HasSuffix file ''.zip''
              then handleDownload e c fs namespace name file
              else (http_Error ''unknown file type'' 400, fs, []))"

section \<open>Notions used in the statements about the hash cache\<close>

text \<open>
  The content of the regular files of a file system, and the condition that every file
  lies in a directory that exists.
\<close>

definition files :: "filesystem \<Rightarrow> (fpath \<rightharpoonup> string)" where
  "files fs p = (case map_of fs p of Some (File d) \<Rightarrow> Some d | _ \<Rightarrow> None)"

definition wf_fs :: "filesystem \<Rightarrow> bool" where
  "wf_fs fs = (\<forall>p d. files fs p = Some d \<longrightarrow> snd p \<noteq> [] \<and> is_dir fs (filepath_Dir p))"

text \<open>
  A path segment that \<open>filepath.Clean\<close> keeps as it is. A key of the cache is well formed
  when namespace and name are such segments, version and platform contain no slash and
  the version contains no underscore (a semantic version never does).
\<close>

definition valid_segment :: "string \<Rightarrow> bool" where
  "valid_segment s = (s \<noteq> [] \<and> s \<noteq> ''.'' \<and> s \<noteq> ''..'' \<and> CHR ''/'' \<notin> set s)"

type_synonym hash_key = "string \<times> string \<times> string \<times> string"

definition valid_key :: "hash_key \<Rightarrow> bool" where
  "valid_key k =
     (case k of (namespace, name, version, platform) \<Rightarrow>
        valid_segment namespace \<and> valid_segment name
        \<and> CHR ''/'' \<notin> set version \<and> CHR ''_'' \<notin> set version
        \<and> CHR ''/'' \<notin> set platform)"

text \<open>
  The path of the file of a key, and a run of calls of \<open>Set\<close> that all succeed. A call
  that succeeds has met no fault, so the run is written without one.
\<close>

definition key_path :: "HashCache \<Rightarrow> hash_key \<Rightarrow> fpath" where
  "key_path c k = (case k of (namespace, name, version, platform) \<Rightarrow>
                     keyToPath c namespace name version platform)"

fun Set_all :: "HashCache \<Rightarrow> filesystem \<Rightarrow> (hash_key \<times> string) list \<Rightarrow> filesystem option" where
  "Set_all c fs [] = Some fs"
| "Set_all c fs (((namespace, name, version, platform), h) # ws) =
     (case Set c fs NoFault namespace name version platform h of
        (None, fs1) \<Rightarrow> Set_all c fs1 ws
      | (Some err, fs1) \<Rightarrow> None)"

text \<open>
  The shape of a cache directory that holds records of well-formed keys only: directories
  down to \<open>hashes/namespace/name\<close>, files one level below.
\<close>

definition cache_shaped :: "HashCache \<Rightarrow> filesystem \<Rightarrow> bool" where
  "cache_shaped c fs =
     ((\<forall>q. map_of fs q = Some Dir
           \<longrightarrow> length (snd q) \<le> length (snd (filepath_Join [baseDir c, ''hashes''])) + 2)
      \<and> (\<forall>q d. map_of fs q = Some (File d)
           \<longrightarrow> length (snd q) = length (snd (filepath_Join [baseDir c, ''hashes''])) + 3))"

section \<open>A concrete origin, used to instantiate the theorems\<close>

definition example_listing :: RegistryVersionsResponse where
  "example_listing =
     \<lparr>Versions = [\<lparr>Version = ''1.0.0'', Platforms = [\<lparr>OS = ''linux'', Arch = ''amd64''\<rparr>,
                                                        \<lparr>OS = ''darwin'', Arch = ''arm64''\<rparr>]\<rparr>,
                  \<lparr>Version = ''1.0.0'', Platforms = []\<rparr>,
                  \<lparr>Version = ''2.0.0'', Platforms = [\<lparr>OS = ''linux'', Arch = ''amd64''\<rparr>]\<rparr>]\<rparr>"

definition example_env :: env where
  "example_env =
     \<lparr>GetJSON = (\<lambda>path. if path = ''/v1/providers/hashicorp/random/versions''
                         then Inr (''listing'', 200)
                         else if path = ''/v1/providers/hashicorp/random/1.0.0/download/linux/amd64''
                         then Inr (''location'', 200)
                         else Inl ''executing request: no route''),
      Unmarshal_versions = (\<lambda>b. if b = ''listing'' then Inr example_listing
                                  else Inl ''invalid character''),
      Unmarshal_download = (\<lambda>b. if b = ''location''
                                  then Inr \<lparr>DownloadURL_r = ''https://releases.example/random.zip'',
                                            Filename = ''terraform-provider-random_1.0.0_linux_amd64.zip'',
                                            SHA256Sum = ''00''\<rparr>
                                  else Inl ''invalid character''),
      Do = (\<lambda>url. if url = ''https://releases.example/random.zip''
                    then Response \<lparr>StatusCode = 200, ContentLength = 3, ContentLength_header = ''3'',
                                   Body = ''PK!'', Body_err = None\<rparr>
                    else DoError ''no such host''),
      CalculateH1 = (\<lambda>content. if content = ''PK!'' then Inr ''h1:example'' else Inl ''zip: not a valid zip file''),
      CreateTemp_err = None,
      temp_Write_err = None,
      temp_Seek_err = None,
      cache_fault = NoFault\<rparr>"

definition example_cache :: HashCache where
  "example_cache = \<lparr>baseDir = ''./cache''\<rparr>"

definition example_store :: filesystem where
  "example_store =
     snd (Set example_cache [] NoFault ''hashicorp'' ''random'' ''1.0.0'' ''linux_amd64'' ''h1:example'')"

definition example_writes :: "(hash_key \<times> string) list" where
  "example_writes =
     [((''hashicorp'', ''random'', ''1.0.0'', ''linux_amd64''), ''h1:first''),
      ((''hashicorp'', ''random'', ''2.0.0'', ''linux_amd64''), ''h1:other''),
      ((''hashicorp'', ''google_beta'', ''1.0.0'', ''linux_amd64''), ''h1:beta''),
      ((''hashicorp'', ''random'', ''1.0.0'', ''darwin_arm64''), ''h1:darwin''),
      ((''hashicorp'', ''random'', ''1.0.0'', ''linux_amd64''), ''h1:second'')]"

section \<open>Properties of the string functions\<close>

lemma Split_not_Nil: "Split s c \<noteq> []"
  by (induction s) (auto split: list.splits)

lemma Split_no_sep: "c \<notin> set s \<Longrightarrow> Split s c = [s]"
  by (induction s) auto

lemma Split_append_sep: "Split (a @ c # b) c = Split a c @ Split b c"
proof (induction a)
  case Nil
  show ?case by simp
next
  case (Cons x a)
  obtain p ps where sp: "Split a c = p # ps"
    using Split_not_Nil [of a c] by (cases "Split a c") auto
  show ?case using Cons sp by simp
qed

lemma Join_Split: "Join (Split s c) [c] = s"
proof (induction s)
  case Nil
  show ?case by simp
next
  case (Cons x s)
  obtain p ps where sp: "Split s c = p # ps"
    using Split_not_Nil [of s c] by (cases "Split s c") auto
  show ?case
  proof (cases "x = c")
    case True
    then show ?thesis using Cons sp by simp
  next
    case False
    then show ?thesis using Cons sp by (cases ps) simp_all
  qed
qed

lemma HasPrefix_append: "HasPrefix (p @ s) p"
  by (simp add: HasPrefix_def)

lemma TrimPrefix_append: "TrimPrefix (p @ s) p = s"
  by (simp add: TrimPrefix_def HasPrefix_def)

lemma HasSuffix_append: "HasSuffix (s @ suf) suf"
  by (simp add: HasSuffix_def)

lemma TrimSuffix_append: "TrimSuffix (s @ suf) suf = s"
  by (simp add: TrimSuffix_def HasSuffix_def)

lemma Split_encoded:
  assumes "CHR ''_'' \<notin> set version" "CHR ''_'' \<notin> set os" "CHR ''_'' \<notin> set arch"
  shows "Split (name @ ''_'' @ version @ ''_'' @ os @ ''_'' @ arch) CHR ''_''
         = Split name CHR ''_'' @ [version, os, arch]"
proof -
  have "Split (name @ CHR ''_'' # (version @ CHR ''_'' # (os @ CHR ''_'' # arch))) CHR ''_''
        = Split name CHR ''_'' @ Split version CHR ''_'' @ Split os CHR ''_'' @ Split arch CHR ''_''"
    by (simp only: Split_append_sep)
  then show ?thesis using assms by (simp add: Split_no_sep)
qed

lemma HasPrefix_split: "HasPrefix s p \<Longrightarrow> s = p @ TrimPrefix s p"
  by (simp add: HasPrefix_def TrimPrefix_def) (metis append_take_drop_id)

lemma HasSuffix_split: "HasSuffix s suf \<Longrightarrow> s = TrimSuffix s suf @ suf"
  by (simp add: HasSuffix_def TrimSuffix_def) (metis append_take_drop_id)

lemma HasSuffix_rev: "HasSuffix s suf \<longleftrightarrow> take (length suf) (rev s) = rev suf \<and> length suf \<le> length s"
  by (auto simp add: HasSuffix_def take_rev rev_swap)

lemma h1_suffix_after_underscore:
  assumes "HasSuffix (v @ ''_'' @ rest) ''.h1''"
  shows "HasSuffix rest ''.h1''"
proof -
  from assms have t: "take (length ''.h1'') (rev (v @ ''_'' @ rest)) = rev ''.h1''"
    unfolding HasSuffix_rev by blast
  show ?thesis
  proof (cases "rev rest")
    case Nil
    with t show ?thesis by simp
  next
    case (Cons a as)
    note c1 = Cons
    show ?thesis
    proof (cases as)
      case Nil
      with t c1 show ?thesis by simp
    next
      case (Cons b bs)
      note c2 = Cons
      show ?thesis
      proof (cases bs)
        case Nil
        with t c1 c2 show ?thesis by simp
      next
        case (Cons d ds)
        with t c1 c2 have r: "rev rest = CHR ''1'' # CHR ''h'' # CHR ''.'' # ds" by simp
        then have "rest = rev ds @ ''.h1''"
          by (simp add: rev_swap)
        then show ?thesis by (simp add: HasSuffix_def)
      qed
    qed
  qed
qed

lemma hash_filename_platform:
  assumes "HasPrefix filename (v @ ''_'')" and "HasSuffix filename ''.h1''"
  shows "TrimSuffix (TrimPrefix filename (v @ ''_'')) ''.h1'' = p \<longleftrightarrow> filename = v @ ''_'' @ p @ ''.h1''"
proof -
  let ?rest = "TrimPrefix filename (v @ ''_'')"
  have f: "filename = (v @ ''_'') @ ?rest"
    using assms(1) by (rule HasPrefix_split)
  have "HasSuffix (v @ ''_'' @ ?rest) ''.h1''"
    using assms(2) f by simp
  then have "HasSuffix ?rest ''.h1''"
    by (rule h1_suffix_after_underscore)
  then have r: "?rest = TrimSuffix ?rest ''.h1'' @ ''.h1''"
    by (rule HasSuffix_split)
  show ?thesis
  proof
    assume "TrimSuffix ?rest ''.h1'' = p"
    with r have "?rest = p @ ''.h1''" by simp
    with f show "filename = v @ ''_'' @ p @ ''.h1''" by simp
  next
    assume e: "filename = v @ ''_'' @ p @ ''.h1''"
    have "TrimPrefix ((v @ ''_'') @ p @ ''.h1'') (v @ ''_'') = p @ ''.h1''"
      by (rule TrimPrefix_append)
    with e have "?rest = p @ ''.h1''" by simp
    then show "TrimSuffix ?rest ''.h1'' = p"
      using TrimSuffix_append [of p "''.h1''"] by simp
  qed
qed

lemma hash_filename_affixes:
  "HasPrefix (v @ ''_'' @ p @ ''.h1'') (v @ ''_'')" "HasSuffix (v @ ''_'' @ p @ ''.h1'') ''.h1''"
  using HasPrefix_append [of "v @ ''_''" "p @ ''.h1''"] HasSuffix_append [of "v @ ''_'' @ p" "''.h1''"]
  by simp_all

lemma sep_free_append_inj:
  "c \<notin> set v \<Longrightarrow> c \<notin> set v' \<Longrightarrow> v @ c # x = v' @ c # x' \<Longrightarrow> v = v' \<and> x = x'"
proof (induction v arbitrary: v')
  case Nil
  then show ?case by (cases v') auto
next
  case (Cons a v)
  then show ?case by (cases v') auto
qed

lemma hash_filename_inj:
  assumes "CHR ''_'' \<notin> set v" and "CHR ''_'' \<notin> set v'"
    and "v @ ''_'' @ p @ ''.h1'' = v' @ ''_'' @ p' @ ''.h1''"
  shows "v = v' \<and> p = p'"
proof -
  from assms(3) have "v @ CHR ''_'' # (p @ ''.h1'') = v' @ CHR ''_'' # (p' @ ''.h1'')"
    by simp
  with assms(1,2) have "v = v' \<and> p @ ''.h1'' = p' @ ''.h1''"
    by (rule sep_free_append_inj)
  then show ?thesis by simp
qed

lemma Split_parts_subset: "x \<in> set (Split s c) \<Longrightarrow> set x \<subseteq> set s"
proof (induction s arbitrary: x)
  case Nil
  then show ?case by simp
next
  case (Cons a s)
  obtain p ps where sp: "Split s c = p # ps"
    using Split_not_Nil [of s c] by (cases "Split s c") auto
  show ?case
  proof (cases "a = c")
    case True
    with Cons.prems have "x = [] \<or> x \<in> set (Split s c)" by simp
    with Cons.IH show ?thesis by auto
  next
    case False
    with Cons.prems sp have "x = a # p \<or> x \<in> set ps" by simp
    moreover have "set p \<subseteq> set s" using Cons.IH [of p] sp by simp
    moreover have "x \<in> set ps \<Longrightarrow> set x \<subseteq> set s" using Cons.IH [of x] sp by simp
    ultimately show ?thesis by auto
  qed
qed

lemma Split_parts_sep_free: "x \<in> set (Split s c) \<Longrightarrow> c \<notin> set x"
proof (induction s arbitrary: x)
  case Nil
  then show ?case by simp
next
  case (Cons a s)
  obtain p ps where sp: "Split s c = p # ps"
    using Split_not_Nil [of s c] by (cases "Split s c") auto
  show ?case
  proof (cases "a = c")
    case True
    with Cons.prems have "x = [] \<or> x \<in> set (Split s c)" by simp
    with Cons.IH show ?thesis by auto
  next
    case False
    with Cons.prems sp have "x = a # p \<or> x \<in> set ps" by simp
    moreover have "c \<notin> set p" using Cons.IH [of p] sp by simp
    moreover have "x \<in> set ps \<Longrightarrow> c \<notin> set x" using Cons.IH [of x] sp by simp
    ultimately show ?thesis using False by auto
  qed
qed

section \<open>Claims about the filename codec\<close>

text \<open>
  C1. Round trip of the filename codec: when version, os and arch contain no underscore
  (the name may contain any number of them), \<open>ParseZipFilename\<close> applied to the name
  \<open>terraform-provider-<name>_<version>_<os>_<arch>.zip\<close> returns exactly
  (name, version, os, arch) and no error.
\<close>

theorem ParseZipFilename_roundtrip:
  assumes "CHR ''_'' \<notin> set version" "CHR ''_'' \<notin> set os" "CHR ''_'' \<notin> set arch"
  shows "ParseZipFilename (archive_filename name version os arch)
         = Inr (name, version, os, arch)"
proof -
  let ?rest = "name @ ''_'' @ version @ ''_'' @ os @ ''_'' @ arch"
  let ?parts = "Split name CHR ''_''"
  have fname: "archive_filename name version os arch
              = (''terraform-provider-'' @ ?rest) @ ''.zip''"
    by (simp add: archive_filename_def)
  have trim: "TrimSuffix (archive_filename name version os arch) ''.zip''
              = ''terraform-provider-'' @ ?rest"
    unfolding fname by (rule TrimSuffix_append)
  have parts: "Split ?rest CHR ''_'' = ?parts @ [version, os, arch]"
    using assms by (rule Split_encoded)
  have len: "length (?parts @ [version, os, arch]) = length ?parts + 3"
    by simp
  have pos: "0 < length ?parts"
    using Split_not_Nil [of name "CHR ''_''"] by simp
  have nm: "Join ?parts ''_'' = name"
    by (rule Join_Split)
  have n1: "(?parts @ [version, os, arch]) ! (length ?parts + 3 - 1) = arch"
    by (simp add: nth_append)
  have n2: "(?parts @ [version, os, arch]) ! (length ?parts + 3 - 2) = os"
    by (simp add: nth_append)
  have n3: "(?parts @ [version, os, arch]) ! (length ?parts + 3 - 3) = version"
    by (simp add: nth_append)
  show ?thesis
    unfolding ParseZipFilename_def trim
    using pos nm n1 n2 n3
    by (simp only: HasPrefix_append TrimPrefix_append parts len Let_def) simp
qed

theorem ParseZipFilename_roundtrip_witness:
  "CHR ''_'' \<notin> set ''3.6.0'' \<and> CHR ''_'' \<notin> set ''linux'' \<and> CHR ''_'' \<notin> set ''amd64''
   \<and> ParseZipFilename (archive_filename ''google_beta'' ''3.6.0'' ''linux'' ''amd64'')
       = Inr (''google_beta'', ''3.6.0'', ''linux'', ''amd64'')"
  using ParseZipFilename_roundtrip [of "''3.6.0''" "''linux''" "''amd64''" "''google_beta''"]
  by simp


text \<open>
  C4, as stated, fails: \<open>ParseZipFilename\<close> removes the suffix \<open>.zip\<close> when it is there and
  does not ask for it. A name without the suffix is decoded.
\<close>

theorem ParseZipFilename_missing_zip_counterexample:
  "\<not> HasSuffix ''terraform-provider-random_3.6.0_linux_amd64'' ''.zip''
   \<and> ParseZipFilename ''terraform-provider-random_3.6.0_linux_amd64''
       = Inr (''random'', ''3.6.0'', ''linux'', ''amd64'')"
  by (simp add: ParseZipFilename_def HasSuffix_def HasPrefix_def TrimSuffix_def TrimPrefix_def)


text \<open>
  C4. Decode rejection, as the code has it: \<open>ParseZipFilename\<close> fails exactly when, after
  a trailing \<open>.zip\<close> (if there is one) has been removed, the text does not start with
  \<open>terraform-provider-\<close> or what follows the prefix has fewer than 4 segments between
  underscores; its error is then one of the two "invalid filename format" messages. A
  missing \<open>.zip\<close> alone is not rejected.
\<close>

theorem ParseZipFilename_rejects:
  "(isl (ParseZipFilename f)
      \<longleftrightarrow> \<not> HasPrefix (TrimSuffix f ''.zip'') ''terraform-provider-''
          \<or> length (Split (TrimPrefix (TrimSuffix f ''.zip'') ''terraform-provider-'') CHR ''_'') < 4)
   \<and> (\<forall>err. ParseZipFilename f = Inl err
          \<longrightarrow> err = ''invalid filename format''
              \<or> err = ''invalid filename format: not enough parts'')"
  by (auto simp add: ParseZipFilename_def Let_def)

theorem ParseZipFilename_rejects_witness:
  "isl (ParseZipFilename ''terraform-provider-random_3.6.0.zip'')
   \<and> ParseZipFilename ''terraform-provider-random_3.6.0.zip''
       = Inl ''invalid filename format: not enough parts''"
  using ParseZipFilename_rejects [of "''terraform-provider-random_3.6.0.zip''"]
  by (simp add: ParseZipFilename_def HasSuffix_def HasPrefix_def TrimSuffix_def TrimPrefix_def)

section \<open>Claims about the mirror translator\<close>

lemma version_keys_distinct:
  "distinct (map fst acc) \<Longrightarrow>
   distinct (map fst (foldl (\<lambda>m v. AList.update (Version v) () m) acc vs))"
  by (induction vs arbitrary: acc) (simp_all add: distinct_update)

lemma version_keys_set:
  "set (map fst (foldl (\<lambda>m v. AList.update (Version v) () m) acc vs))
   = set (map fst acc) \<union> Version ` set vs"
  by (induction vs arbitrary: acc) (auto simp add: dom_update)


text \<open>
  C8. Set semantics of \<open>ProviderVersions\<close>: when the origin answers with a listing, the
  index document has one key for each distinct version string of the listing and no other
  key, no key twice, however often a version occurs in the listing; every key maps to the
  empty object, so the platforms are dropped.
\<close>

theorem ProviderVersions_set_semantics:
  assumes "GetJSON e (''/v1/providers/'' @ namespace @ ''/'' @ name @ ''/versions'') = Inr (raw, 200)"
    and "Unmarshal_versions e raw = Inr listing"
  shows "\<exists>members.
           fst (ProviderVersions e namespace name) = Inr (JObject [(''versions'', JObject members)])
           \<and> distinct (map fst members)
           \<and> set (map fst members) = Version ` set (Versions listing)
           \<and> (\<forall>m \<in> set members. snd m = JObject [])"
proof -
  let ?al = "foldl (\<lambda>m v. AList.update (Version v) () m) [] (Versions listing)"
  let ?members = "map (\<lambda>(k, u). (k, JObject [])) ?al"
  have keys: "map fst ?members = map fst ?al"
    by (simp add: case_prod_unfold comp_def)
  have out: "fst (ProviderVersions e namespace name) = Inr (JObject [(''versions'', JObject ?members)])"
    using assms by (simp add: ProviderVersions_def Marshal_MirrorVersionsResponse_def)
  have d: "distinct (map fst ?members)"
    unfolding keys by (rule version_keys_distinct) simp
  have s: "set (map fst ?members) = Version ` set (Versions listing)"
    unfolding keys using version_keys_set [of "[]" "Versions listing"] by simp
  have v: "\<forall>m \<in> set ?members. snd m = JObject []"
    by auto
  from out d s v show ?thesis by blast
qed

theorem ProviderVersions_set_semantics_witness:
  "\<exists>members.
     fst (ProviderVersions example_env ''hashicorp'' ''random'')
       = Inr (JObject [(''versions'', JObject members)])
     \<and> distinct (map fst members)
     \<and> set (map fst members) = {''1.0.0'', ''2.0.0''}
     \<and> (\<forall>m \<in> set members. snd m = JObject [])"
  using ProviderVersions_set_semantics [of example_env "''hashicorp''" "''random''" "''listing''" example_listing]
  by (simp add: example_env_def example_listing_def)

lemma ProviderVersions_example:
  "fst (ProviderVersions example_env ''hashicorp'' ''random'')
   = Inr (JObject [(''versions'', JObject [(''1.0.0'', JObject []), (''2.0.0'', JObject [])])])"
  by (simp add: ProviderVersions_def example_env_def example_listing_def
      Marshal_MirrorVersionsResponse_def)

text \<open>
  C9. Unknown version: when the requested version does not occur in the origin's listing,
  \<open>ProviderVersion\<close> fails with the message "version ... not found", and the only request
  it has sent is the one to the versions listing: no download location is resolved and
  nothing is downloaded.
\<close>

theorem ProviderVersion_unknown_version:
  assumes "GetJSON e (''/v1/providers/'' @ namespace @ ''/'' @ name @ ''/versions'') = Inr (raw, 200)"
    and "Unmarshal_versions e raw = Inr listing"
    and "version \<notin> Version ` set (Versions listing)"
  shows "ProviderVersion e c fs namespace name version
         = (Inl (''version '' @ version @ '' not found''),
            [OriginGET (''/v1/providers/'' @ namespace @ ''/'' @ name @ ''/versions'')])"
proof -
  have "find (\<lambda>v. Version v = version) (Versions listing) = None"
    using assms(3) by (auto simp add: find_None_iff)
  then show ?thesis
    using assms(1,2) by (simp add: ProviderVersion_def)
qed

theorem ProviderVersion_unknown_version_witness:
  "ProviderVersion example_env example_cache [] ''hashicorp'' ''random'' ''9.9.9''
   = (Inl ''version 9.9.9 not found'', [OriginGET ''/v1/providers/hashicorp/random/versions''])"
  using ProviderVersion_unknown_version [of example_env "''hashicorp''" "''random''" "''listing''"
      example_listing "''9.9.9''" example_cache "[]"]
  by (simp add: example_env_def example_listing_def)

text \<open>
  C5, as stated, fails: \<open>handleVersion\<close> answers every error of \<open>ProviderVersion\<close> with
  status 502, also the error of a version that the origin does not list.
\<close>

theorem handleVersion_missing_version_counterexample:
  "''9.9.9'' \<notin> Version ` set (Versions example_listing)
   \<and> status (fst (handleVersion example_env example_cache [] ''hashicorp'' ''random'' ''9.9.9'')) = 502"
  by (simp add: handleVersion_def ProviderVersion_def example_env_def example_listing_def
      http_Error_def)


text \<open>
  C5. Missing version, as the code has it: when the requested version does not occur in
  the origin's listing, the handler answers with status 502 (Bad Gateway) and the message
  "version ... not found"; 502 is also its status when the call to the origin fails.
\<close>

theorem handleVersion_missing_version:
  assumes "GetJSON e (''/v1/providers/'' @ namespace @ ''/'' @ name @ ''/versions'') = Inr (raw, 200)"
    and "Unmarshal_versions e raw = Inr listing"
    and "version \<notin> Version ` set (Versions listing)"
  shows "fst (handleVersion e c fs namespace name version)
           = http_Error (''version '' @ version @ '' not found'') 502
         \<and> (\<forall>e' err. GetJSON e' (''/v1/providers/'' @ namespace @ ''/'' @ name @ ''/versions'') = Inl err
               \<longrightarrow> status (fst (handleVersion e' c fs namespace name version)) = 502)"
proof -
  have "find (\<lambda>v. Version v = version) (Versions listing) = None"
    using assms(3) by (auto simp add: find_None_iff)
  then have "fst (handleVersion e c fs namespace name version)
             = http_Error (''version '' @ version @ '' not found'') 502"
    using assms(1,2) by (simp add: handleVersion_def ProviderVersion_def)
  moreover have "\<forall>e' err. GetJSON e' (''/v1/providers/'' @ namespace @ ''/'' @ name @ ''/versions'') = Inl err
                   \<longrightarrow> status (fst (handleVersion e' c fs namespace name version)) = 502"
    by (simp add: handleVersion_def ProviderVersion_def http_Error_def)
  ultimately show ?thesis by blast
qed

theorem handleVersion_missing_version_witness:
  "fst (handleVersion example_env example_cache [] ''hashicorp'' ''random'' ''3.0.0'')
   = http_Error ''version 3.0.0 not found'' 502"
  using handleVersion_missing_version [of example_env "''hashicorp''" "''random''" "''listing''"
      example_listing "''3.0.0''" example_cache "[]"]
  by (simp add: example_env_def example_listing_def)

lemma find_snoc:
  "find P (xs @ [x]) = (case find P xs of Some y \<Rightarrow> Some y | None \<Rightarrow> (if P x then Some x else None))"
  by (induction xs) auto

lemma add_archive_lookup:
  "map_of (add_archive name version ch acc p) k =
     (if OS p @ ''_'' @ Arch p = k
      then Some \<lparr>URL = archive_filename name version (OS p) (Arch p),
                 Hashes = (case ch k of Some h1 \<Rightarrow> [h1] | None \<Rightarrow> [])\<rparr>
      else map_of acc k)"
  by (simp add: add_archive_def Let_def update_conv')

lemma add_archive_keys:
  "distinct (map fst acc) \<Longrightarrow> distinct (map fst (add_archive name version ch acc p))"
  by (simp add: add_archive_def Let_def distinct_update)

lemma archives_lookup:
  "map_of (foldl (add_archive name version ch) acc ps) k =
     (case find (\<lambda>p. OS p @ ''_'' @ Arch p = k) (rev ps) of
        Some p \<Rightarrow> Some \<lparr>URL = archive_filename name version (OS p) (Arch p),
                        Hashes = (case ch k of Some h1 \<Rightarrow> [h1] | None \<Rightarrow> [])\<rparr>
      | None \<Rightarrow> map_of acc k)"
proof (induction ps arbitrary: acc)
  case Nil
  show ?case by simp
next
  case (Cons p ps)
  have "map_of (foldl (add_archive name version ch) acc (p # ps)) k
        = map_of (foldl (add_archive name version ch) (add_archive name version ch acc p) ps) k"
    by simp
  also have "\<dots> = (case find (\<lambda>p. OS p @ ''_'' @ Arch p = k) (rev ps) of
        Some p \<Rightarrow> Some \<lparr>URL = archive_filename name version (OS p) (Arch p),
                        Hashes = (case ch k of Some h1 \<Rightarrow> [h1] | None \<Rightarrow> [])\<rparr>
      | None \<Rightarrow> map_of (add_archive name version ch acc p) k)"
    by (rule Cons.IH)
  also have "\<dots> = (case find (\<lambda>p. OS p @ ''_'' @ Arch p = k) (rev (p # ps)) of
        Some p \<Rightarrow> Some \<lparr>URL = archive_filename name version (OS p) (Arch p),
                        Hashes = (case ch k of Some h1 \<Rightarrow> [h1] | None \<Rightarrow> [])\<rparr>
      | None \<Rightarrow> map_of acc k)"
    by (simp add: find_snoc add_archive_lookup split: option.splits)
  finally show ?case .
qed

lemma archives_distinct:
  "distinct (map fst acc) \<Longrightarrow> distinct (map fst (foldl (add_archive name version ch) acc ps))"
  by (induction ps arbitrary: acc) (simp_all add: add_archive_keys)

lemma find_in_set: "x \<in> set xs \<Longrightarrow> P x \<Longrightarrow> \<exists>y. find P xs = Some y \<and> P y"
  by (induction xs) auto

lemma ProviderVersion_archive_entry:
  assumes "GetJSON e (''/v1/providers/'' @ namespace @ ''/'' @ name @ ''/versions'') = Inr (raw, 200)"
    and "Unmarshal_versions e raw = Inr listing"
    and "find (\<lambda>v. Version v = version) (Versions listing) = Some targetVersion"
    and "p \<in> set (Platforms targetVersion)"
  shows "\<exists>archives url.
           fst (ProviderVersion e c fs namespace name version)
             = Inr (JObject [(''archives'', JObject archives)])
           \<and> distinct (map fst archives)
           \<and> map_of archives (OS p @ ''_'' @ Arch p)
             = Some (JObject ((''url'', JString url)
                              # (case GetAll c fs namespace name version (OS p @ ''_'' @ Arch p) of
                                   Some h1 \<Rightarrow> [(''hashes'', JArray [JString h1])]
                                 | None \<Rightarrow> [])))"
proof -
  let ?ch = "GetAll c fs namespace name version"
  let ?k = "OS p @ ''_'' @ Arch p"
  let ?al = "foldl (add_archive name version ?ch) [] (Platforms targetVersion)"
  let ?archives = "map (\<lambda>(k, a). (k, Marshal_MirrorArchive a)) ?al"
  have out: "fst (ProviderVersion e c fs namespace name version)
             = Inr (JObject [(''archives'', JObject ?archives)])"
    using assms(1-3) by (simp add: ProviderVersion_def Marshal_MirrorVersionResponse_def)
  have keys: "map fst ?archives = map fst ?al"
    by (simp add: case_prod_unfold comp_def)
  have d: "distinct (map fst ?archives)"
    unfolding keys by (rule archives_distinct) simp
  have "p \<in> set (rev (Platforms targetVersion))"
    using assms(4) by simp
  then obtain q where q: "find (\<lambda>p'. OS p' @ ''_'' @ Arch p' = ?k) (rev (Platforms targetVersion)) = Some q"
    using find_in_set [of p "rev (Platforms targetVersion)" "\<lambda>p'. OS p' @ ''_'' @ Arch p' = ?k"]
    by blast
  have al: "map_of ?al ?k = Some \<lparr>URL = archive_filename name version (OS q) (Arch q),
                                   Hashes = (case ?ch ?k of Some h1 \<Rightarrow> [h1] | None \<Rightarrow> [])\<rparr>"
    using q by (simp add: archives_lookup)
  have "map_of ?archives ?k
        = Some (JObject ((''url'', JString (archive_filename name version (OS q) (Arch q)))
                         # (case ?ch ?k of Some h1 \<Rightarrow> [(''hashes'', JArray [JString h1])]
                                          | None \<Rightarrow> [])))"
    using al by (simp add: map_of_map Marshal_MirrorArchive_def split: option.splits)
  with out d show ?thesis by blast
qed

text \<open>
  C6. Hashes in a version document: when \<open>ProviderVersion\<close> builds a document, the
  entry of every platform of the version has the member \<open>hashes\<close> holding exactly the one
  hash that the cache returns for this namespace, name, version and platform, and has no
  member \<open>hashes\<close> at all (not an empty list) when the cache returns none.
\<close>

theorem ProviderVersion_hashes:
  assumes "GetJSON e (''/v1/providers/'' @ namespace @ ''/'' @ name @ ''/versions'') = Inr (raw, 200)"
    and "Unmarshal_versions e raw = Inr listing"
    and "find (\<lambda>v. Version v = version) (Versions listing) = Some targetVersion"
    and "p \<in> set (Platforms targetVersion)"
  shows "\<exists>archives url.
           fst (ProviderVersion e c fs namespace name version)
             = Inr (JObject [(''archives'', JObject archives)])
           \<and> distinct (map fst archives)
           \<and> map_of archives (OS p @ ''_'' @ Arch p)
             = Some (JObject ((''url'', JString url)
                              # (case GetAll c fs namespace name version (OS p @ ''_'' @ Arch p) of
                                   Some h1 \<Rightarrow> [(''hashes'', JArray [JString h1])]
                                 | None \<Rightarrow> [])))"
  using assms by (rule ProviderVersion_archive_entry)

lemma example_store_GetAll:
  "GetAll example_cache example_store ''hashicorp'' ''random'' ''1.0.0'' ''linux_amd64'' = Some ''h1:example''"
  by code_simp

theorem ProviderVersion_hashes_witness:
  "\<exists>archives url.
     fst (ProviderVersion example_env example_cache example_store ''hashicorp'' ''random'' ''1.0.0'')
       = Inr (JObject [(''archives'', JObject archives)])
     \<and> distinct (map fst archives)
     \<and> map_of archives ''linux_amd64''
       = Some (JObject [(''url'', JString url), (''hashes'', JArray [JString ''h1:example''])])"
  using ProviderVersion_hashes [of example_env "''hashicorp''" "''random''" "''listing''"
      example_listing "''1.0.0''"
      "\<lparr>Version = ''1.0.0'', Platforms = [\<lparr>OS = ''linux'', Arch = ''amd64''\<rparr>,
                                          \<lparr>OS = ''darwin'', Arch = ''arm64''\<rparr>]\<rparr>"
      "\<lparr>OS = ''linux'', Arch = ''amd64''\<rparr>" example_cache example_store]
    example_store_GetAll
  by (simp add: example_env_def example_listing_def)

lemma ProviderVersion_example:
  "fst (ProviderVersion example_env example_cache example_store ''hashicorp'' ''random'' ''1.0.0'')
   = Inr (JObject [(''archives'', JObject
            [(''linux_amd64'',
              JObject [(''url'', JString ''terraform-provider-random_1.0.0_linux_amd64.zip''),
                       (''hashes'', JArray [JString ''h1:example''])]),
             (''darwin_arm64'',
              JObject [(''url'', JString ''terraform-provider-random_1.0.0_darwin_arm64.zip'')])])])"
  by code_simp

section \<open>Properties of the file system and of the hash cache\<close>

lemma ReadFile_Inr_iff: "ReadFile fs p = Inr d \<longleftrightarrow> files fs p = Some d"
  by (simp add: ReadFile_def files_def split: option.splits node.splits)

lemma files_update_Dir:
  "map_of fs q = None \<Longrightarrow> files (AList.update q Dir fs) = files fs"
  by (rule ext) (simp add: files_def update_conv')

lemma is_dir_update_Dir:
  "is_dir fs p \<Longrightarrow> map_of fs q = None \<Longrightarrow> is_dir (AList.update q Dir fs) p"
  by (auto simp add: is_dir_def update_conv')

lemma is_dir_update_Dir_self: "is_dir (AList.update q Dir fs) q"
  by (simp add: is_dir_def update_conv')

lemma mkdir_each_effect:
  "mkdir_each fs r pre cs = Inr fs' \<Longrightarrow>
   files fs' = files fs \<and> (\<forall>q. is_dir fs q \<longrightarrow> is_dir fs' q)
   \<and> (is_dir fs (r, pre) \<longrightarrow> is_dir fs' (r, pre @ cs))"
proof (induction cs arbitrary: fs pre)
  case Nil
  then show ?case by simp
next
  case (Cons c cs)
  show ?case
  proof (cases "map_of fs (r, pre @ [c])")
    case None
    let ?fs1 = "AList.update (r, pre @ [c]) Dir fs"
    from Cons.prems None have run: "mkdir_each ?fs1 r (pre @ [c]) cs = Inr fs'"
      by simp
    note ih = Cons.IH [OF run]
    have f: "files ?fs1 = files fs"
      using None by (rule files_update_Dir)
    have d: "\<forall>q. is_dir fs q \<longrightarrow> is_dir ?fs1 q"
      using None by (simp add: is_dir_update_Dir)
    have s: "is_dir ?fs1 (r, pre @ [c])"
      by (rule is_dir_update_Dir_self)
    from ih f d s show ?thesis by simp
  next
    case (Some n)
    show ?thesis
    proof (cases n)
      case (File x)
      with Cons.prems Some show ?thesis by simp
    next
      case Dir
      from Cons.prems Some Dir have run: "mkdir_each fs r (pre @ [c]) cs = Inr fs'"
        by simp
      note ih = Cons.IH [OF run]
      have s: "is_dir fs (r, pre @ [c])"
        using Some Dir by (simp add: is_dir_def)
      from ih s show ?thesis by simp
    qed
  qed
qed

lemma MkdirAll_effect_conj:
  assumes "MkdirAll fs k p = Inr fs'"
  shows "files fs' = files fs \<and> (\<forall>q. is_dir fs q \<longrightarrow> is_dir fs' q) \<and> is_dir fs' p"
proof (cases "is_dir fs p")
  case True
  with assms have "fs' = fs" by (simp add: MkdirAll_def)
  with True show ?thesis by simp
next
  case False
  with assms have run: "mkdir_each fs (fst p) [] (snd p) = Inr fs'"
    by (simp add: MkdirAll_def split: if_splits)
  have root: "is_dir fs (fst p, [])"
    by (simp add: is_dir_def)
  from mkdir_each_effect [OF run] root show ?thesis by simp
qed

lemma MkdirAll_effect:
  assumes "MkdirAll fs k p = Inr fs'"
  shows "files fs' = files fs" and "\<forall>q. is_dir fs q \<longrightarrow> is_dir fs' q" and "is_dir fs' p"
  using MkdirAll_effect_conj [OF assms] by simp_all

lemma WriteFile_effect:
  assumes "WriteFile fs k p h = (None, fs')"
  shows "files fs' = (files fs)(p \<mapsto> h)" and "\<forall>q. is_dir fs q \<longrightarrow> is_dir fs' q"
    and "snd p \<noteq> []" and "is_dir fs (filepath_Dir p)"
proof -
  from assms have nd: "\<not> is_dir fs p" and pd: "is_dir fs (filepath_Dir p)"
    and upd: "fs' = AList.update p (File h) fs"
    by (auto simp add: WriteFile_def split: if_splits os_fault.splits)
  show "files fs' = (files fs)(p \<mapsto> h)"
    unfolding upd by (rule ext) (simp add: files_def update_conv')
  show "\<forall>q. is_dir fs q \<longrightarrow> is_dir fs' q"
    unfolding upd using nd by (auto simp add: is_dir_def update_conv')
  show "snd p \<noteq> []" using nd by (simp add: is_dir_def)
  show "is_dir fs (filepath_Dir p)" by (rule pd)
qed

lemma Set_effect:
  assumes "Set c fs k namespace name version platform h = (None, fs')"
  shows "files fs' = (files fs)(keyToPath c namespace name version platform \<mapsto> h)"
    and "\<forall>q. is_dir fs q \<longrightarrow> is_dir fs' q"
    and "snd (keyToPath c namespace name version platform) \<noteq> []"
    and "is_dir fs' (filepath_Dir (keyToPath c namespace name version platform))"
proof -
  let ?P = "keyToPath c namespace name version platform"
  from assms obtain fs1 where mk: "MkdirAll fs k (filepath_Dir ?P) = Inr fs1"
    and wr: "WriteFile fs1 k ?P h = (None, fs')"
    by (auto simp add: Set_def Let_def split: sum.splits)
  note m = MkdirAll_effect [OF mk]
  note w = WriteFile_effect [OF wr]
  show "files fs' = (files fs)(?P \<mapsto> h)" using m(1) w(1) by simp
  show "\<forall>q. is_dir fs q \<longrightarrow> is_dir fs' q" using m(2) w(2) by blast
  show "snd ?P \<noteq> []" by (rule w(3))
  show "is_dir fs' (filepath_Dir ?P)" using m(3) w(2) by blast
qed

lemma Set_wf:
  assumes "Set c fs k namespace name version platform h = (None, fs')" and "wf_fs fs"
  shows "wf_fs fs'"
proof -
  note s = Set_effect [OF assms(1)]
  show ?thesis
    unfolding wf_fs_def
  proof (intro allI impI)
    fix p d assume a: "files fs' p = Some d"
    show "snd p \<noteq> [] \<and> is_dir fs' (filepath_Dir p)"
    proof (cases "p = keyToPath c namespace name version platform")
      case True
      with s(3,4) show ?thesis by simp
    next
      case False
      with a s(1) have "files fs p = Some d" by simp
      with assms(2) have "snd p \<noteq> []" and "is_dir fs (filepath_Dir p)"
        unfolding wf_fs_def by blast+
      with s(2) show ?thesis by blast
    qed
  qed
qed

text \<open>A call of \<open>Set\<close> that succeeds did not meet its fault: it is the call without one.\<close>

lemma Set_success_without_fault:
  assumes "fst (Set c fs k namespace name version platform h) = None"
  shows "Set c fs k namespace name version platform h
         = Set c fs NoFault namespace name version platform h"
proof -
  let ?P = "keyToPath c namespace name version platform"
  show ?thesis
  proof (cases "is_dir fs (filepath_Dir ?P)")
    case True
    then have m: "MkdirAll fs k (filepath_Dir ?P) = Inr fs" "MkdirAll fs NoFault (filepath_Dir ?P) = Inr fs"
      by (simp_all add: MkdirAll_def)
    from assms m(1) have "fst (WriteFile fs k ?P h) = None"
      by (simp add: Set_def Let_def)
    then have "WriteFile fs k ?P h = WriteFile fs NoFault ?P h"
      by (cases k) (simp_all add: WriteFile_def split: if_splits)
    with m show ?thesis by (simp add: Set_def Let_def)
  next
    case False
    with assms have nk: "k \<noteq> MkdirFault"
      by (auto simp add: Set_def Let_def MkdirAll_def)
    with False have m: "MkdirAll fs k (filepath_Dir ?P) = MkdirAll fs NoFault (filepath_Dir ?P)"
      by (simp add: MkdirAll_def)
    show ?thesis
    proof (cases "MkdirAll fs NoFault (filepath_Dir ?P)")
      case (Inl err)
      with m show ?thesis by (simp add: Set_def Let_def)
    next
      case (Inr fs1)
      with assms m have "fst (WriteFile fs1 k ?P h) = None"
        by (simp add: Set_def Let_def)
      then have "WriteFile fs1 k ?P h = WriteFile fs1 NoFault ?P h"
        by (cases k) (simp_all add: WriteFile_def split: if_splits)
      with m Inr show ?thesis by (simp add: Set_def Let_def)
    qed
  qed
qed

lemma ReadDir_entries:
  assumes "ReadDir fs d = Inr es"
  shows "(x, n) \<in> set es \<longleftrightarrow> map_of fs (fst d, snd d @ [x]) = Some n"
proof -
  from assms have es: "es = [(last (snd p), n). (p, n) \<leftarrow> fs, map_of fs p = Some n, fst p = fst d,
                                  snd p \<noteq> [], butlast (snd p) = snd d]"
    by (simp add: ReadDir_def split: if_splits)
  show ?thesis
  proof
    assume "(x, n) \<in> set es"
    then obtain p where p: "map_of fs p = Some n" "fst p = fst d" "snd p \<noteq> []"
        "butlast (snd p) = snd d" "last (snd p) = x"
      unfolding es by (auto split: if_splits)
    from p(3,4,5) have "snd p = snd d @ [x]"
      by (metis append_butlast_last_id)
    with p(2) have "p = (fst d, snd d @ [x])"
      by (cases p) simp
    with p(1) show "map_of fs (fst d, snd d @ [x]) = Some n" by simp
  next
    assume a: "map_of fs (fst d, snd d @ [x]) = Some n"
    then have "((fst d, snd d @ [x]), n) \<in> set fs"
      by (rule map_of_SomeD)
    with a show "(x, n) \<in> set es"
      unfolding es by force
  qed
qed

lemma GetAll_entries_lookup:
  assumes "\<forall>x n. (x, n) \<in> set es \<longrightarrow> map_of fs (fst d, snd d @ [x]) = Some n"
  shows "GetAll_entries fs d (v @ ''_'') ''.h1'' es acc p =
           (if \<exists>data. (v @ ''_'' @ p @ ''.h1'', File data) \<in> set es
            then map_option TrimSpace (files fs (fst d, snd d @ [v @ ''_'' @ p @ ''.h1'']))
            else acc p)"
  using assms
proof (induction es arbitrary: acc)
  case Nil
  show ?case by simp
next
  case (Cons e es)
  obtain filename n where e: "e = (filename, n)" by (cases e)
  from Cons.prems have tl: "\<forall>x n. (x, n) \<in> set es \<longrightarrow> map_of fs (fst d, snd d @ [x]) = Some n"
    by simp
  note ih = Cons.IH [OF tl]
  from Cons.prems e have hd: "map_of fs (fst d, snd d @ [filename]) = Some n"
    by simp
  let ?f = "v @ ''_'' @ p @ ''.h1''"
  show ?case
  proof (cases n)
    case Dir
    then show ?thesis using e ih by simp
  next
    case (File data)
    have rd: "ReadFile fs (fst d, snd d @ [filename]) = Inr data"
      using hd File by (simp add: ReadFile_def)
    have fl: "files fs (fst d, snd d @ [filename]) = Some data"
      using hd File by (simp add: files_def)
    show ?thesis
    proof (cases "HasPrefix filename (v @ ''_'') \<and> HasSuffix filename ''.h1''")
      case False
      then have "filename \<noteq> ?f"
        using hash_filename_affixes [of v p] by auto
      with False e File ih show ?thesis by auto
    next
      case True
      then have pq: "TrimSuffix (TrimPrefix filename (v @ ''_'')) ''.h1'' = p \<longleftrightarrow> filename = ?f"
        using hash_filename_platform by blast
      let ?q = "TrimSuffix (TrimPrefix filename (v @ ''_'')) ''.h1''"
      have step: "GetAll_entries fs d (v @ ''_'') ''.h1'' (e # es) acc p
                  = GetAll_entries fs d (v @ ''_'') ''.h1'' es (acc(?q \<mapsto> TrimSpace data)) p"
        using e File True rd by (simp add: Let_def)
      show ?thesis
      proof (cases "filename = ?f")
        case True
        with pq have q: "?q = p" by simp
        from True fl have fd: "files fs (fst d, snd d @ [?f]) = Some data" by simp
        have ex: "\<exists>data'. (?f, File data') \<in> set (e # es)"
          using True e File by auto
        have "GetAll_entries fs d (v @ ''_'') ''.h1'' (e # es) acc p = Some (TrimSpace data)"
          unfolding step ih using q fd by simp
        moreover have "(if \<exists>data'. (?f, File data') \<in> set (e # es)
                        then map_option TrimSpace (files fs (fst d, snd d @ [?f]))
                        else acc p) = Some (TrimSpace data)"
          using ex fd by simp
        ultimately show ?thesis by simp
      next
        case False
        with pq have q: "?q \<noteq> p" by simp
        have ex: "(\<exists>data'. (?f, File data') \<in> set (e # es)) \<longleftrightarrow> (\<exists>data'. (?f, File data') \<in> set es)"
          using False e by auto
        show ?thesis
          unfolding step ih ex using q by simp
      qed
    qed
  qed
qed

lemma GetAll_lookup_dir:
  assumes "is_dir fs (filepath_Join [baseDir c, ''hashes'', namespace, name])"
  shows "GetAll c fs namespace name version p =
           map_option TrimSpace
             (files fs (fst (filepath_Join [baseDir c, ''hashes'', namespace, name]),
                        snd (filepath_Join [baseDir c, ''hashes'', namespace, name])
                        @ [version @ ''_'' @ p @ ''.h1'']))"
proof -
  let ?d = "filepath_Join [baseDir c, ''hashes'', namespace, name]"
  let ?f = "version @ ''_'' @ p @ ''.h1''"
  obtain es where es: "ReadDir fs ?d = Inr es"
    using assms by (simp add: ReadDir_def)
  have ent: "\<forall>x n. (x, n) \<in> set es \<longrightarrow> map_of fs (fst ?d, snd ?d @ [x]) = Some n"
    using ReadDir_entries [OF es] by simp
  have g: "GetAll c fs namespace name version p
           = GetAll_entries fs ?d (version @ ''_'') ''.h1'' es Map.empty p"
    using es by (simp add: GetAll_def)
  have iff: "(\<exists>data. (?f, File data) \<in> set es) \<longleftrightarrow> files fs (fst ?d, snd ?d @ [?f]) \<noteq> None"
    using ReadDir_entries [OF es, of ?f]
    by (auto simp add: files_def split: option.splits node.splits)
  show ?thesis
    unfolding g GetAll_entries_lookup [OF ent]
    using iff by (cases "files fs (fst ?d, snd ?d @ [?f])") auto
qed

lemma GetAll_lookup_wf:
  assumes "wf_fs fs"
  shows "GetAll c fs namespace name version p =
           map_option TrimSpace
             (files fs (fst (filepath_Join [baseDir c, ''hashes'', namespace, name]),
                        snd (filepath_Join [baseDir c, ''hashes'', namespace, name])
                        @ [version @ ''_'' @ p @ ''.h1'']))"
proof (cases "is_dir fs (filepath_Join [baseDir c, ''hashes'', namespace, name])")
  case True
  then show ?thesis by (rule GetAll_lookup_dir)
next
  case False
  let ?d = "filepath_Join [baseDir c, ''hashes'', namespace, name]"
  let ?f = "version @ ''_'' @ p @ ''.h1''"
  have "files fs (fst ?d, snd ?d @ [?f]) = None"
  proof (rule ccontr)
    assume "files fs (fst ?d, snd ?d @ [?f]) \<noteq> None"
    then obtain data where "files fs (fst ?d, snd ?d @ [?f]) = Some data" by blast
    with assms have "is_dir fs (filepath_Dir (fst ?d, snd ?d @ [?f]))"
      unfolding wf_fs_def by blast
    with False show False by (simp add: filepath_Dir_def)
  qed
  moreover have "GetAll c fs namespace name version p = None"
    using False by (simp add: GetAll_def ReadDir_def)
  ultimately show ?thesis by simp
qed

lemma Join_snoc: "xs \<noteq> [] \<Longrightarrow> Join (xs @ [s]) sep = Join xs sep @ sep @ s"
  by (induction xs sep rule: Join.induct) simp_all

lemma Join_Cons_not_Nil: "x \<noteq> [] \<Longrightarrow> Join (x # xs) sep \<noteq> []"
  by (cases xs) simp_all

lemma Clean_snoc:
  assumes "valid_segment s" and "t \<noteq> []"
  shows "Clean (t @ ''/'' @ s) = (fst (Clean t), snd (Clean t) @ [s])"
proof -
  have r: "HasPrefix (t @ ''/'' @ s) ''/'' = HasPrefix t ''/''"
    using assms(2) by (cases t) (simp_all add: HasPrefix_def)
  have "Split (t @ CHR ''/'' # s) CHR ''/'' = Split t CHR ''/'' @ Split s CHR ''/''"
    by (rule Split_append_sep)
  then have sp: "Split (t @ ''/'' @ s) CHR ''/'' = Split t CHR ''/'' @ [s]"
    using assms(1) by (simp add: valid_segment_def Split_no_sep)
  have st: "clean_step b out s = s # out" for b out
    using assms(1) by (simp add: valid_segment_def)
  show ?thesis
    by (simp only: Clean_def Let_def r sp foldl_append foldl_Cons foldl_Nil st rev.simps fst_conv snd_conv)
qed

lemma filepath_Join_snoc:
  assumes "valid_segment s" and "\<exists>x \<in> set xs. x \<noteq> []"
  shows "filepath_Join (xs @ [s]) = (fst (filepath_Join xs), snd (filepath_Join xs) @ [s])"
proof -
  let ?ys = "dropWhile (\<lambda>e. e = []) xs"
  from assms(2) obtain x where x: "x \<in> set xs" "\<not> (\<lambda>e. e = []) x"
    by blast
  have d: "dropWhile (\<lambda>e. e = []) (xs @ [s]) = ?ys @ [s]"
    using x by (rule dropWhile_append1)
  have ne: "?ys \<noteq> []"
    using assms(2) by (simp add: dropWhile_eq_Nil_conv)
  then obtain y ys where ys: "?ys = y # ys" by (cases ?ys) auto
  then have "y \<noteq> []"
    using hd_dropWhile [of "\<lambda>e. e = []" xs] ne by auto
  then have t: "Join ?ys ''/'' \<noteq> []"
    unfolding ys by (rule Join_Cons_not_Nil)
  have j: "Join (?ys @ [s]) ''/'' = Join ?ys ''/'' @ ''/'' @ s"
    using ne by (rule Join_snoc)
  show ?thesis
    unfolding filepath_Join_def d j using assms(1) t by (rule Clean_snoc)
qed

lemma valid_hash_filename:
  assumes "CHR ''/'' \<notin> set version" and "CHR ''/'' \<notin> set platform"
  shows "valid_segment (version @ ''_'' @ platform @ ''.h1'')"
proof -
  let ?f = "version @ ''_'' @ platform @ ''.h1''"
  have len: "4 \<le> length ?f" by simp
  have a: "?f \<noteq> ''.''"
  proof
    assume "?f = ''.''"
    then have "length ?f = length ''.''" by (rule arg_cong)
    with len show False by simp
  qed
  have b: "?f \<noteq> ''..''"
  proof
    assume "?f = ''..''"
    then have "length ?f = length ''..''" by (rule arg_cong)
    with len show False by simp
  qed
  have c: "?f \<noteq> []" by simp
  have d: "CHR ''/'' \<notin> set ?f" using assms by simp
  from a b c d show ?thesis
    unfolding valid_segment_def by blast
qed

lemma keyToPath_child:
  assumes "CHR ''/'' \<notin> set version" and "CHR ''/'' \<notin> set platform"
  shows "keyToPath c namespace name version platform
         = (fst (filepath_Join [baseDir c, ''hashes'', namespace, name]),
            snd (filepath_Join [baseDir c, ''hashes'', namespace, name])
            @ [version @ ''_'' @ platform @ ''.h1''])"
proof -
  have v: "valid_segment (version @ ''_'' @ platform @ ''.h1'')"
    using assms by (rule valid_hash_filename)
  have ne: "\<exists>x \<in> set [baseDir c, ''hashes'', namespace, name]. x \<noteq> []"
    by simp
  have "filepath_Join ([baseDir c, ''hashes'', namespace, name] @ [version @ ''_'' @ platform @ ''.h1''])
        = (fst (filepath_Join [baseDir c, ''hashes'', namespace, name]),
           snd (filepath_Join [baseDir c, ''hashes'', namespace, name])
           @ [version @ ''_'' @ platform @ ''.h1''])"
    using v ne by (rule filepath_Join_snoc)
  then show ?thesis
    by (simp add: keyToPath_def)
qed

text \<open>
  For a version and a platform without a slash, \<open>GetAll\<close> and \<open>Get\<close> read the same file:
  \<open>GetAll\<close> returns for a platform what \<open>Get\<close> returns for the key.
\<close>

lemma GetAll_agrees_with_Get:
  assumes "wf_fs fs" and "CHR ''/'' \<notin> set version" and "CHR ''/'' \<notin> set platform"
  shows "GetAll c fs namespace name version platform
         = (if snd (Get c fs namespace name version platform)
            then Some (fst (Get c fs namespace name version platform)) else None)"
proof -
  have "GetAll c fs namespace name version platform
        = map_option TrimSpace (files fs (keyToPath c namespace name version platform))"
    unfolding keyToPath_child [OF assms(2,3)] using assms(1) by (rule GetAll_lookup_wf)
  then show ?thesis
    by (simp add: Get_def Let_def ReadFile_def files_def split: option.splits node.splits)
qed

lemma hashes_dir_valid:
  assumes "valid_segment namespace" and "valid_segment name"
  shows "filepath_Join [baseDir c, ''hashes'', namespace, name]
         = (fst (filepath_Join [baseDir c, ''hashes'']),
            snd (filepath_Join [baseDir c, ''hashes'']) @ [namespace, name])"
proof -
  have ne1: "\<exists>x \<in> set [baseDir c, ''hashes'']. x \<noteq> []" by simp
  have ne2: "\<exists>x \<in> set [baseDir c, ''hashes'', namespace]. x \<noteq> []" by simp
  have a: "filepath_Join ([baseDir c, ''hashes''] @ [namespace])
           = (fst (filepath_Join [baseDir c, ''hashes'']),
              snd (filepath_Join [baseDir c, ''hashes'']) @ [namespace])"
    using assms(1) ne1 by (rule filepath_Join_snoc)
  have b: "filepath_Join ([baseDir c, ''hashes'', namespace] @ [name])
           = (fst (filepath_Join [baseDir c, ''hashes'', namespace]),
              snd (filepath_Join [baseDir c, ''hashes'', namespace]) @ [name])"
    using assms(2) ne2 by (rule filepath_Join_snoc)
  from a b show ?thesis by simp
qed

lemma key_path_valid:
  assumes "valid_key (namespace, name, version, platform)"
  shows "key_path c (namespace, name, version, platform)
         = (fst (filepath_Join [baseDir c, ''hashes'']),
            snd (filepath_Join [baseDir c, ''hashes''])
            @ [namespace, name, version @ ''_'' @ platform @ ''.h1''])"
proof -
  from assms have v: "valid_segment namespace" "valid_segment name"
    "CHR ''/'' \<notin> set version" "CHR ''/'' \<notin> set platform"
    by (simp_all add: valid_key_def)
  show ?thesis
    unfolding key_path_def prod.case keyToPath_child [OF v(3,4)] hashes_dir_valid [OF v(1,2)]
    by simp
qed

lemma key_path_inj:
  assumes "valid_key k" and "valid_key k'" and "key_path c k = key_path c k'"
  shows "k = k'"
proof -
  obtain ns name v p where k: "k = (ns, name, v, p)" by (cases k) auto
  obtain ns' name' v' p' where k': "k' = (ns', name', v', p')" by (cases k') auto
  from assms(3) have "[ns, name, v @ ''_'' @ p @ ''.h1''] = [ns', name', v' @ ''_'' @ p' @ ''.h1'']"
    using key_path_valid [of ns name v p c] key_path_valid [of ns' name' v' p' c] assms(1,2)
    unfolding k k' by simp
  then have e: "ns = ns'" "name = name'" "v @ ''_'' @ p @ ''.h1'' = v' @ ''_'' @ p' @ ''.h1''"
    by simp_all
  from assms(1,2) have "CHR ''_'' \<notin> set v" "CHR ''_'' \<notin> set v'"
    unfolding k k' by (simp_all add: valid_key_def)
  then have "v = v' \<and> p = p'"
    using e(3) by (rule hash_filename_inj)
  with e(1,2) show ?thesis unfolding k k' by simp
qed

lemma map_of_key_path:
  assumes "\<forall>w \<in> set ws. valid_key (fst w)" and "valid_key k"
  shows "map_of (map (\<lambda>(k', h). (key_path c k', h)) ws) (key_path c k) = map_of ws k"
  using assms(1)
proof (induction ws)
  case Nil
  show ?case by simp
next
  case (Cons w ws)
  obtain k' h where w: "w = (k', h)" by (cases w)
  from Cons.prems w have vk': "valid_key k'" by simp
  have "key_path c k' = key_path c k \<longleftrightarrow> k' = k"
    using key_path_inj [OF vk' assms(2)] by auto
  moreover from Cons have "map_of (map (\<lambda>(k', h). (key_path c k', h)) ws) (key_path c k) = map_of ws k"
    by simp
  ultimately show ?case
    unfolding w by auto
qed

lemma map_of_key_path_invalid:
  assumes "\<forall>w \<in> set ws. valid_key (fst w)" and "CHR ''/'' \<in> set x"
  shows "map_of (map (\<lambda>(k', h). (key_path c k', h)) ws) (r, cs @ [x]) = None"
  using assms(1)
proof (induction ws)
  case Nil
  show ?case by simp
next
  case (Cons w ws)
  obtain ns name v p h where w: "w = ((ns, name, v, p), h)" by (cases w) auto
  from Cons.prems w have vk: "valid_key (ns, name, v, p)" by simp
  then have "CHR ''/'' \<notin> set (v @ ''_'' @ p @ ''.h1'')"
    by (simp add: valid_key_def)
  with assms(2) have "v @ ''_'' @ p @ ''.h1'' \<noteq> x" by blast
  then have "key_path c (ns, name, v, p) \<noteq> (r, cs @ [x])"
    unfolding key_path_valid [OF vk] by simp
  moreover from Cons have "map_of (map (\<lambda>(k', h). (key_path c k', h)) ws) (r, cs @ [x]) = None"
    by simp
  ultimately show ?case
    unfolding w by simp
qed

lemma files_Nil: "files [] = Map.empty"
  by (rule ext) (simp add: files_def)

lemma wf_fs_Nil: "wf_fs []"
  by (simp add: wf_fs_def files_def)

lemma Set_all_effect:
  "Set_all c fs ws = Some fs' \<Longrightarrow> wf_fs fs \<Longrightarrow>
   wf_fs fs' \<and> files fs' = files fs ++ map_of (map (\<lambda>(k, h). (key_path c k, h)) (rev ws))"
proof (induction ws arbitrary: fs)
  case Nil
  then show ?case by simp
next
  case (Cons w ws)
  obtain ns name v p h where w: "w = ((ns, name, v, p), h)" by (cases w) auto
  from Cons.prems(1) obtain fs1 where s: "Set c fs NoFault ns name v p h = (None, fs1)"
    and rest: "Set_all c fs1 ws = Some fs'"
    unfolding w by (auto split: prod.splits option.splits)
  have wf1: "wf_fs fs1"
    using s Cons.prems(2) by (rule Set_wf)
  have f1: "files fs1 = (files fs)(key_path c (ns, name, v, p) \<mapsto> h)"
    using Set_effect(1) [OF s] by (simp add: key_path_def)
  from Cons.IH [OF rest wf1]
  have wf': "wf_fs fs'"
    and f': "files fs' = files fs1 ++ map_of (map (\<lambda>(k, h). (key_path c k, h)) (rev ws))"
    by simp_all
  have "files fs' = files fs ++ map_of (map (\<lambda>(k, h). (key_path c k, h)) (rev (w # ws)))"
    unfolding f' f1 w by (rule ext) (simp add: map_add_def split: option.splits)
  with wf' show ?case by simp
qed

text \<open>Without a fault, every call of \<open>Set\<close> with a well-formed key succeeds.\<close>

lemma cache_shaped_Dir:
  "cache_shaped c fs \<Longrightarrow> map_of fs q = Some Dir
   \<Longrightarrow> length (snd q) \<le> length (snd (filepath_Join [baseDir c, ''hashes''])) + 2"
  unfolding cache_shaped_def by blast

lemma cache_shaped_File:
  "cache_shaped c fs \<Longrightarrow> map_of fs q = Some (File d)
   \<Longrightarrow> length (snd q) = length (snd (filepath_Join [baseDir c, ''hashes''])) + 3"
  unfolding cache_shaped_def by blast

lemma mkdir_each_succeeds:
  assumes "\<forall>q d. map_of fs q = Some (File d) \<longrightarrow> length pre + length cs < length (snd q)"
  shows "\<exists>fs'. mkdir_each fs r pre cs = Inr fs'
           \<and> (\<forall>q n. map_of fs' q = Some n \<longrightarrow>
                  map_of fs q = Some n \<or> (n = Dir \<and> length (snd q) \<le> length pre + length cs))"
  using assms
proof (induction cs arbitrary: fs pre)
  case Nil
  show ?case by simp
next
  case (Cons x cs)
  let ?q = "(r, pre @ [x])"
  have nofile: "map_of fs ?q \<noteq> Some (File d)" for d
    using Cons.prems by fastforce
  show ?case
  proof (cases "map_of fs ?q")
    case None
    let ?fs1 = "AList.update ?q Dir fs"
    have pre1: "\<forall>q d. map_of ?fs1 q = Some (File d) \<longrightarrow> length (pre @ [x]) + length cs < length (snd q)"
      using Cons.prems by (auto simp add: update_conv' split: if_splits)
    from Cons.IH [OF pre1] obtain fs' where
      run: "mkdir_each ?fs1 r (pre @ [x]) cs = Inr fs'"
      and nodes: "\<forall>q n. map_of fs' q = Some n \<longrightarrow>
                    map_of ?fs1 q = Some n \<or> (n = Dir \<and> length (snd q) \<le> length (pre @ [x]) + length cs)"
      by blast
    have "mkdir_each fs r pre (x # cs) = Inr fs'"
      using None run by simp
    moreover have "\<forall>q n. map_of fs' q = Some n \<longrightarrow>
                    map_of fs q = Some n \<or> (n = Dir \<and> length (snd q) \<le> length pre + length (x # cs))"
    proof (intro allI impI)
      fix q n assume "map_of fs' q = Some n"
      with nodes have "map_of ?fs1 q = Some n \<or> (n = Dir \<and> length (snd q) \<le> length (pre @ [x]) + length cs)"
        by blast
      then show "map_of fs q = Some n \<or> (n = Dir \<and> length (snd q) \<le> length pre + length (x # cs))"
        by (auto simp add: update_conv' split: if_splits)
    qed
    ultimately show ?thesis by blast
  next
    case (Some n)
    with nofile have n: "n = Dir" by (cases n) auto
    have pre1: "\<forall>q d. map_of fs q = Some (File d) \<longrightarrow> length (pre @ [x]) + length cs < length (snd q)"
      using Cons.prems by simp
    from Cons.IH [OF pre1] obtain fs' where
      run: "mkdir_each fs r (pre @ [x]) cs = Inr fs'"
      and nodes: "\<forall>q n. map_of fs' q = Some n \<longrightarrow>
                    map_of fs q = Some n \<or> (n = Dir \<and> length (snd q) \<le> length (pre @ [x]) + length cs)"
      by blast
    have "mkdir_each fs r pre (x # cs) = Inr fs'"
      using Some n run by simp
    moreover from nodes have "\<forall>q n. map_of fs' q = Some n \<longrightarrow>
                    map_of fs q = Some n \<or> (n = Dir \<and> length (snd q) \<le> length pre + length (x # cs))"
      by simp
    ultimately show ?thesis by blast
  qed
qed

lemma Set_succeeds:
  assumes "valid_key (namespace, name, version, platform)" and "cache_shaped c fs"
  shows "\<exists>fs'. Set c fs NoFault namespace name version platform h = (None, fs') \<and> cache_shaped c fs'"
proof -
  let ?B = "snd (filepath_Join [baseDir c, ''hashes''])"
  let ?r = "fst (filepath_Join [baseDir c, ''hashes''])"
  let ?f = "version @ ''_'' @ platform @ ''.h1''"
  let ?P = "keyToPath c namespace name version platform"
  have P: "?P = (?r, ?B @ [namespace, name, ?f])"
    using key_path_valid [OF assms(1), of c] by (simp add: key_path_def)
  then have D: "filepath_Dir ?P = (?r, ?B @ [namespace, name])"
    by (simp add: filepath_Dir_def butlast_append)
  have "\<exists>fs1. MkdirAll fs NoFault (filepath_Dir ?P) = Inr fs1 \<and> cache_shaped c fs1"
  proof (cases "is_dir fs (filepath_Dir ?P)")
    case True
    with assms(2) show ?thesis by (simp add: MkdirAll_def)
  next
    case False
    have "\<forall>q d. map_of fs q = Some (File d) \<longrightarrow> length ([]::string list) + length (?B @ [namespace, name]) < length (snd q)"
    proof (intro allI impI)
      fix q d assume "map_of fs q = Some (File d)"
      with assms(2) have "length (snd q) = length ?B + 3" by (rule cache_shaped_File)
      then show "length ([]::string list) + length (?B @ [namespace, name]) < length (snd q)" by simp
    qed
    from mkdir_each_succeeds [OF this, of ?r] obtain fs1 where
      run: "mkdir_each fs ?r [] (?B @ [namespace, name]) = Inr fs1"
      and nodes: "\<forall>q n. map_of fs1 q = Some n \<longrightarrow>
                    map_of fs q = Some n \<or> (n = Dir \<and> length (snd q) \<le> length ([]::string list) + length (?B @ [namespace, name]))"
      by blast
    have "MkdirAll fs NoFault (filepath_Dir ?P) = Inr fs1"
      using False run unfolding D by (simp add: MkdirAll_def)
    moreover have "cache_shaped c fs1"
      unfolding cache_shaped_def
    proof (intro conjI allI impI)
      fix q assume "map_of fs1 q = Some Dir"
      with nodes have "map_of fs q = Some Dir \<or> length (snd q) \<le> length ?B + 2"
        by fastforce
      with assms(2) show "length (snd q) \<le> length ?B + 2"
        using cache_shaped_Dir by blast
    next
      fix q d assume "map_of fs1 q = Some (File d)"
      with nodes have "map_of fs q = Some (File d)" by blast
      with assms(2) show "length (snd q) = length ?B + 3"
        by (rule cache_shaped_File)
    qed
    ultimately show ?thesis by blast
  qed
  then obtain fs1 where mk: "MkdirAll fs NoFault (filepath_Dir ?P) = Inr fs1"
    and sh: "cache_shaped c fs1" by blast
  have dir: "is_dir fs1 (filepath_Dir ?P)"
    by (rule MkdirAll_effect(3) [OF mk])
  have "map_of fs1 ?P \<noteq> Some Dir"
  proof
    assume "map_of fs1 ?P = Some Dir"
    with sh have "length (snd ?P) \<le> length ?B + 2"
      by (rule cache_shaped_Dir)
    then show False unfolding P by simp
  qed
  then have nd: "\<not> is_dir fs1 ?P"
    unfolding is_dir_def P by simp
  let ?fs' = "AList.update ?P (File h) fs1"
  have wr: "WriteFile fs1 NoFault ?P h = (None, ?fs')"
    using nd dir by (simp add: WriteFile_def)
  have "cache_shaped c ?fs'"
    unfolding cache_shaped_def
  proof (intro conjI allI impI)
    fix q assume a: "map_of ?fs' q = Some Dir"
    then have "q \<noteq> ?P" by (auto simp add: update_conv')
    with a have "map_of fs1 q = Some Dir" by (simp add: update_conv')
    with sh show "length (snd q) \<le> length ?B + 2" by (rule cache_shaped_Dir)
  next
    fix q d assume a: "map_of ?fs' q = Some (File d)"
    show "length (snd q) = length ?B + 3"
    proof (cases "q = ?P")
      case True
      then show ?thesis unfolding P by simp
    next
      case False
      with a have "map_of fs1 q = Some (File d)" by (simp add: update_conv')
      with sh show ?thesis by (rule cache_shaped_File)
    qed
  qed
  with mk wr show ?thesis
    by (simp add: Set_def Let_def)
qed

lemma Set_all_succeeds_from:
  "\<forall>w \<in> set ws. valid_key (fst w) \<Longrightarrow> cache_shaped c fs \<Longrightarrow> \<exists>fs'. Set_all c fs ws = Some fs'"
proof (induction ws arbitrary: fs)
  case Nil
  show ?case by simp
next
  case (Cons w ws)
  obtain ns name v p h where w: "w = ((ns, name, v, p), h)" by (cases w) auto
  from Cons.prems(1) w have "valid_key (ns, name, v, p)" by simp
  from Set_succeeds [OF this Cons.prems(2), of h] obtain fs1 where
    s: "Set c fs NoFault ns name v p h = (None, fs1)" and sh: "cache_shaped c fs1"
    by blast
  from Cons.prems(1) have "\<forall>w \<in> set ws. valid_key (fst w)" by simp
  from Cons.IH [OF this sh] obtain fs' where "Set_all c fs1 ws = Some fs'" by blast
  with s show ?case unfolding w by simp
qed

lemma Set_all_succeeds:
  assumes "\<forall>w \<in> set ws. valid_key (fst w)"
  shows "\<exists>fs. Set_all c [] ws = Some fs"
  using assms by (rule Set_all_succeeds_from) (simp add: cache_shaped_def)

section \<open>Claims about the hash cache\<close>

text \<open>
  C7, as stated, fails: the file of a record is named \<open>version_platform.h1\<close> and \<open>GetAll\<close>
  selects by the prefix \<open>version_\<close>, so a record written for version \<open>1.0\<close> and platform
  \<open>linux_amd64\<close> is returned for version \<open>1.0_linux\<close>, as platform \<open>amd64\<close>.
\<close>

theorem GetAll_other_version_counterexample:
  "fst (Set example_cache [] NoFault ''hashicorp'' ''random'' ''1.0'' ''linux_amd64'' ''h1:abc'') = None
   \<and> GetAll example_cache
        (snd (Set example_cache [] NoFault ''hashicorp'' ''random'' ''1.0'' ''linux_amd64'' ''h1:abc''))
        ''hashicorp'' ''random'' ''1.0_linux'' ''amd64'' = Some ''h1:abc''"
  by code_simp

text \<open>
  Three more ways in which what \<open>GetAll\<close> returns is not what was written under the
  key: a slash in a part of a key moves the file to the directory of another namespace and
  name; the hash comes back without the white space at its ends; a write that failed half
  way leaves a shortened hash.
\<close>

lemma GetAll_slash_alias_example:
  "fst (Set example_cache [] NoFault ''hashicorp'' ''random/extra'' ''1.0'' ''linux_amd64'' ''h1:abc'') = None
   \<and> GetAll example_cache
        (snd (Set example_cache [] NoFault ''hashicorp'' ''random/extra'' ''1.0'' ''linux_amd64'' ''h1:abc''))
        ''hashicorp/random'' ''extra'' ''1.0'' ''linux_amd64'' = Some ''h1:abc''"
  by code_simp

lemma GetAll_trims_example:
  "fst (Set example_cache [] NoFault ''hashicorp'' ''random'' ''1.0'' ''linux_amd64''
          [CHR '' '', CHR ''h'', CHR ''1'', CHR 0x0A]) = None
   \<and> GetAll example_cache
        (snd (Set example_cache [] NoFault ''hashicorp'' ''random'' ''1.0'' ''linux_amd64''
                [CHR '' '', CHR ''h'', CHR ''1'', CHR 0x0A]))
        ''hashicorp'' ''random'' ''1.0'' ''linux_amd64'' = Some ''h1''"
  by code_simp

lemma GetAll_short_write_example:
  "fst (Set example_cache [] (WriteFault 2) ''hashicorp'' ''random'' ''1.0'' ''linux_amd64'' ''h1:abc'') = Some EIO
   \<and> GetAll example_cache
        (snd (Set example_cache [] (WriteFault 2) ''hashicorp'' ''random'' ''1.0'' ''linux_amd64'' ''h1:abc''))
        ''hashicorp'' ''random'' ''1.0'' ''linux_amd64'' = Some ''h1''"
  by code_simp

text \<open>
  C7. Exactness of \<open>GetAll\<close>, as the code has it: start from an empty cache directory and
  let every call of \<open>Set\<close> succeed, all with well-formed keys. Then, for a namespace, a
  name and a version that are well formed too, \<open>GetAll\<close> returns for each platform the
  hash that was last written for this namespace, name, version and platform, with the white
  space at its ends removed, and nothing for a platform never written: no record written
  under another namespace, name or version is returned.
\<close>

theorem GetAll_exact:
  assumes "Set_all c [] ws = Some fs"
    and "\<forall>w \<in> set ws. valid_key (fst w)"
    and "valid_segment namespace" and "valid_segment name"
    and "CHR ''/'' \<notin> set version" and "CHR ''_'' \<notin> set version"
  shows "GetAll c fs namespace name version
         = (\<lambda>platform. map_option TrimSpace (map_of (rev ws) (namespace, name, version, platform)))"
proof (rule ext)
  fix platform
  let ?d = "filepath_Join [baseDir c, ''hashes'', namespace, name]"
  let ?f = "version @ ''_'' @ platform @ ''.h1''"
  let ?M = "map_of (map (\<lambda>(k, h). (key_path c k, h)) (rev ws))"
  from Set_all_effect [OF assms(1) wf_fs_Nil]
  have wf: "wf_fs fs" and fl: "files fs = ?M"
    by (simp_all add: files_Nil)
  have g: "GetAll c fs namespace name version platform
           = map_option TrimSpace (?M (fst ?d, snd ?d @ [?f]))"
    using GetAll_lookup_wf [OF wf] fl by simp
  have vr: "\<forall>w \<in> set (rev ws). valid_key (fst w)"
    using assms(2) by simp
  have "?M (fst ?d, snd ?d @ [?f]) = map_of (rev ws) (namespace, name, version, platform)"
  proof (cases "CHR ''/'' \<in> set platform")
    case True
    then have "CHR ''/'' \<in> set ?f" by simp
    then have "?M (fst ?d, snd ?d @ [?f]) = None"
      using vr by (rule map_of_key_path_invalid [rotated])
    moreover have "map_of (rev ws) (namespace, name, version, platform) = None"
    proof (rule ccontr)
      assume "map_of (rev ws) (namespace, name, version, platform) \<noteq> None"
      then obtain h where "map_of (rev ws) (namespace, name, version, platform) = Some h"
        by blast
      then have "((namespace, name, version, platform), h) \<in> set (rev ws)"
        by (rule map_of_SomeD)
      with vr have "valid_key (namespace, name, version, platform)" by force
      with True show False by (simp add: valid_key_def)
    qed
    ultimately show ?thesis by simp
  next
    case False
    with assms(3-6) have vk: "valid_key (namespace, name, version, platform)"
      by (simp add: valid_key_def)
    have "key_path c (namespace, name, version, platform) = (fst ?d, snd ?d @ [?f])"
      using assms(5) False by (simp add: key_path_def keyToPath_child)
    with map_of_key_path [OF vr vk, of c] show ?thesis by simp
  qed
  with g show "GetAll c fs namespace name version platform
               = map_option TrimSpace (map_of (rev ws) (namespace, name, version, platform))"
    by simp
qed

lemma example_writes_succeed: "Set_all example_cache [] example_writes \<noteq> None"
  by code_simp

lemma example_writes_valid: "\<forall>w \<in> set example_writes. valid_key (fst w)"
  by (simp add: example_writes_def valid_key_def valid_segment_def)

theorem GetAll_exact_witness:
  "\<exists>fs. Set_all example_cache [] example_writes = Some fs
        \<and> GetAll example_cache fs ''hashicorp'' ''random'' ''1.0.0''
            = (\<lambda>platform. map_option TrimSpace
                 (map_of (rev example_writes) (''hashicorp'', ''random'', ''1.0.0'', platform)))
        \<and> GetAll example_cache fs ''hashicorp'' ''random'' ''1.0.0'' ''linux_amd64'' = Some ''h1:second''"
proof -
  obtain fs where fs: "Set_all example_cache [] example_writes = Some fs"
    using example_writes_succeed by blast
  have seg: "valid_segment ''hashicorp''" "valid_segment ''random''"
    "CHR ''/'' \<notin> set ''1.0.0''" "CHR ''_'' \<notin> set ''1.0.0''"
    by (simp_all add: valid_segment_def)
  note ex = GetAll_exact [OF fs example_writes_valid seg]
  have "map_option TrimSpace (map_of (rev example_writes) (''hashicorp'', ''random'', ''1.0.0'', ''linux_amd64''))
        = Some ''h1:second''"
    by code_simp
  with ex fs show ?thesis by simp
qed

section \<open>What the router passes to the download proxy\<close>

text \<open>
  The file name is one segment of the request path, and version, os and arch are parts of
  it: none of them contains a slash.
\<close>

lemma ParseZipFilename_parts:
  assumes "ParseZipFilename filename = Inr (name, version, os, arch)"
  shows "set version \<subseteq> set filename" and "set os \<subseteq> set filename" and "set arch \<subseteq> set filename"
proof -
  let ?rest = "TrimPrefix (TrimSuffix filename ''.zip'') ''terraform-provider-''"
  let ?parts = "Split ?rest CHR ''_''"
  from assms have len: "4 \<le> length ?parts"
    and v: "version = ?parts ! (length ?parts - 3)"
    and o: "os = ?parts ! (length ?parts - 2)"
    and a: "arch = ?parts ! (length ?parts - 1)"
    by (simp_all add: ParseZipFilename_def Let_def split: if_splits)
  have "set (TrimSuffix filename ''.zip'') \<subseteq> set filename"
    by (auto simp add: TrimSuffix_def dest: in_set_takeD)
  moreover have "set ?rest \<subseteq> set (TrimSuffix filename ''.zip'')"
    by (auto simp add: TrimPrefix_def dest: in_set_dropD)
  ultimately have sub: "set ?rest \<subseteq> set filename" by blast
  have "version \<in> set ?parts" "os \<in> set ?parts" "arch \<in> set ?parts"
    unfolding v o a using len by simp_all
  then show "set version \<subseteq> set filename" and "set os \<subseteq> set filename"
    and "set arch \<subseteq> set filename"
    using Split_parts_subset sub by blast+
qed

lemma handleProviders_file_segment:
  assumes "parts = Split (TrimPrefix url_path ''/v1/providers/'') CHR ''/''" and "3 < length parts"
    and "ParseZipFilename (parts ! 3) = Inr (name, version, os, arch)"
  shows "CHR ''/'' \<notin> set version" and "CHR ''/'' \<notin> set (os @ ''_'' @ arch)"
proof -
  have "parts ! 3 \<in> set parts" using assms(2) by simp
  then have f: "CHR ''/'' \<notin> set (parts ! 3)"
    unfolding assms(1) by (rule Split_parts_sep_free)
  from ParseZipFilename_parts [OF assms(3)] f
  show "CHR ''/'' \<notin> set version" and "CHR ''/'' \<notin> set (os @ ''_'' @ arch)"
    by auto
qed

section \<open>Claims about the download proxy\<close>

text \<open>
  C2. A failing hash does not fail the download: when the temporary file was created, the
  body of the origin's response was copied into it without error and the file can be read
  again from its start, then the client gets status 200 and the whole spooled body, also
  when computing the hash fails or when writing it to the cache fails.
\<close>

theorem downloadWithHash_contains_hash_failure:
  assumes "CreateTemp_err e = None" and "Body_err resp = None" and "temp_Write_err e = None"
    and "temp_Seek_err e = None"
    and "isl (CalculateH1 e (Body resp))
         \<or> (\<exists>h1. CalculateH1 e (Body resp) = Inr h1
                \<and> fst (Set c fs (cache_fault e) namespace name version platform h1) \<noteq> None)"
  shows "fst (downloadWithHash e c fs resp namespace name version platform)
         = \<lparr>status = 200,
            headers = [(''Content-Type'', ''application/zip''),
                       (''Content-Length'', fmt_d (length (Body resp)))],
            body = Bytes (Body resp)\<rparr>"
  using assms(1-4) by (simp add: downloadWithHash_def Let_def)

theorem downloadWithHash_contains_hash_failure_witness:
  "isl (CalculateH1 example_env ''not a zip'')
   \<and> fst (downloadWithHash example_env example_cache []
            \<lparr>StatusCode = 200, ContentLength = 9, ContentLength_header = ''9'',
             Body = ''not a zip'', Body_err = None\<rparr>
            ''hashicorp'' ''random'' ''1.0.0'' ''linux_amd64'')
       = \<lparr>status = 200,
          headers = [(''Content-Type'', ''application/zip''), (''Content-Length'', ''9'')],
          body = Bytes ''not a zip''\<rparr>"
  using downloadWithHash_contains_hash_failure [of example_env
      "\<lparr>StatusCode = 200, ContentLength = 9, ContentLength_header = ''9'',
        Body = ''not a zip'', Body_err = None\<rparr>"
      example_cache "[]" "''hashicorp''" "''random''" "''1.0.0''" "''linux_amd64''"]
  by (simp add: example_env_def fmt_d.simps)

lemma downloadWithHash_response_ignores_hashing:
  "fst (downloadWithHash (e\<lparr>CalculateH1 := f, cache_fault := k\<rparr>) c fs resp namespace name version platform)
   = fst (downloadWithHash e c fs resp namespace name version platform)"
  by (simp add: downloadWithHash_def Let_def split: option.splits)

text \<open>
  C3. First download: \<open>downloadWithHash\<close> runs for a key without a cached hash. When the
  temporary file is created, written and read again without error, the hash is computed
  and the write to the cache succeeds, the client gets status 200, the whole body and a
  \<open>Content-Length\<close> that is the number of bytes spooled. Afterwards \<open>ProviderVersion\<close>, for
  the same namespace, name and version and an origin that lists the platform, returns a
  document whose entry for the platform has the list \<open>hashes\<close> with exactly the computed
  hash. Version and platform are parts of one segment of the request path, so they contain
  no slash; a hash token of \<open>CalculateH1\<close> has no white space at its ends.
\<close>

theorem downloadWithHash_first_download:
  assumes "CreateTemp_err e = None" and "Body_err resp = None" and "temp_Write_err e = None"
    and "temp_Seek_err e = None"
    and "CalculateH1 e (Body resp) = Inr h1"
    and "TrimSpace h1 = h1"
    and "fst (Set c fs (cache_fault e) namespace name version platform h1) = None"
    and "CHR ''/'' \<notin> set version" and "CHR ''/'' \<notin> set platform"
    and "GetJSON e' (''/v1/providers/'' @ namespace @ ''/'' @ name @ ''/versions'') = Inr (raw, 200)"
    and "Unmarshal_versions e' raw = Inr listing"
    and "find (\<lambda>v. Version v = version) (Versions listing) = Some targetVersion"
    and "p \<in> set (Platforms targetVersion)" and "OS p @ ''_'' @ Arch p = platform"
  shows "fst (downloadWithHash e c fs resp namespace name version platform)
           = \<lparr>status = 200,
              headers = [(''Content-Type'', ''application/zip''),
                         (''Content-Length'', fmt_d (length (Body resp)))],
              body = Bytes (Body resp)\<rparr>
         \<and> (\<exists>archives url.
               fst (ProviderVersion e' c (snd (downloadWithHash e c fs resp namespace name version platform))
                      namespace name version)
                 = Inr (JObject [(''archives'', JObject archives)])
               \<and> distinct (map fst archives)
               \<and> map_of archives platform
                 = Some (JObject [(''url'', JString url), (''hashes'', JArray [JString h1])]))"
proof -
  let ?P = "keyToPath c namespace name version platform"
  let ?d = "filepath_Join [baseDir c, ''hashes'', namespace, name]"
  let ?fs' = "snd (Set c fs (cache_fault e) namespace name version platform h1)"
  have resp: "fst (downloadWithHash e c fs resp namespace name version platform)
           = \<lparr>status = 200,
              headers = [(''Content-Type'', ''application/zip''),
                         (''Content-Length'', fmt_d (length (Body resp)))],
              body = Bytes (Body resp)\<rparr>"
    using assms(1-4) by (simp add: downloadWithHash_def Let_def)
  have st: "snd (downloadWithHash e c fs resp namespace name version platform) = ?fs'"
    using assms(1-5) by (simp add: downloadWithHash_def Let_def)
  have written: "Set c fs (cache_fault e) namespace name version platform h1 = (None, ?fs')"
    using assms(7) by (simp add: prod_eq_iff)
  have path: "?P = (fst ?d, snd ?d @ [version @ ''_'' @ platform @ ''.h1''])"
    using assms(8,9) by (rule keyToPath_child)
  have "files ?fs' ?P = Some h1"
    using Set_effect(1) [OF written] by simp
  then have stored: "files ?fs' (fst ?d, snd ?d @ [version @ ''_'' @ platform @ ''.h1'']) = Some h1"
    unfolding path .
  have "is_dir ?fs' (filepath_Dir ?P)"
    by (rule Set_effect(4) [OF written])
  then have dir: "is_dir ?fs' ?d"
    unfolding path by (simp add: filepath_Dir_def)
  have cached: "GetAll c ?fs' namespace name version platform = Some h1"
    unfolding GetAll_lookup_dir [OF dir] stored using assms(6) by simp
  from ProviderVersion_archive_entry [OF assms(10-13), of c ?fs']
  obtain archives url where
    doc: "fst (ProviderVersion e' c ?fs' namespace name version)
            = Inr (JObject [(''archives'', JObject archives)])"
    and dist: "distinct (map fst archives)"
    and entry: "map_of archives (OS p @ ''_'' @ Arch p)
            = Some (JObject ((''url'', JString url)
                             # (case GetAll c ?fs' namespace name version (OS p @ ''_'' @ Arch p) of
                                  Some h1 \<Rightarrow> [(''hashes'', JArray [JString h1])]
                                | None \<Rightarrow> [])))"
    by blast
  from entry have "map_of archives platform
            = Some (JObject [(''url'', JString url), (''hashes'', JArray [JString h1])])"
    unfolding assms(14) cached by simp
  with doc dist resp show ?thesis
    unfolding st by blast
qed

theorem downloadWithHash_first_download_witness:
  "fst (downloadWithHash example_env example_cache []
          \<lparr>StatusCode = 200, ContentLength = 3, ContentLength_header = ''3'',
           Body = ''PK!'', Body_err = None\<rparr>
          ''hashicorp'' ''random'' ''1.0.0'' ''linux_amd64'')
     = \<lparr>status = 200,
        headers = [(''Content-Type'', ''application/zip''), (''Content-Length'', ''3'')],
        body = Bytes ''PK!''\<rparr>
   \<and> (\<exists>archives url.
         fst (ProviderVersion example_env example_cache
                (snd (downloadWithHash example_env example_cache []
                        \<lparr>StatusCode = 200, ContentLength = 3, ContentLength_header = ''3'',
                         Body = ''PK!'', Body_err = None\<rparr>
                        ''hashicorp'' ''random'' ''1.0.0'' ''linux_amd64''))
                ''hashicorp'' ''random'' ''1.0.0'')
           = Inr (JObject [(''archives'', JObject archives)])
         \<and> distinct (map fst archives)
         \<and> map_of archives ''linux_amd64''
           = Some (JObject [(''url'', JString url), (''hashes'', JArray [JString ''h1:example''])]))"
proof -
  have store: "fst (Set example_cache [] (cache_fault example_env) ''hashicorp'' ''random'' ''1.0.0''
                    ''linux_amd64'' ''h1:example'') = None"
    by code_simp
  have token: "TrimSpace ''h1:example'' = ''h1:example''"
    by code_simp
  have e: "CreateTemp_err example_env = None" "temp_Write_err example_env = None"
    "temp_Seek_err example_env = None"
    "CalculateH1 example_env ''PK!'' = Inr ''h1:example''"
    "GetJSON example_env (''/v1/providers/'' @ ''hashicorp'' @ ''/'' @ ''random'' @ ''/versions'')
       = Inr (''listing'', 200)"
    "Unmarshal_versions example_env ''listing'' = Inr example_listing"
    by (simp_all add: example_env_def)
  have f: "find (\<lambda>v. Version v = ''1.0.0'') (Versions example_listing)
           = Some \<lparr>Version = ''1.0.0'', Platforms = [\<lparr>OS = ''linux'', Arch = ''amd64''\<rparr>,
                                                      \<lparr>OS = ''darwin'', Arch = ''arm64''\<rparr>]\<rparr>"
    by (simp add: example_listing_def)
  from downloadWithHash_first_download [of example_env
      "\<lparr>StatusCode = 200, ContentLength = 3, ContentLength_header = ''3'',
        Body = ''PK!'', Body_err = None\<rparr>" "''h1:example''" example_cache "[]"
      "''hashicorp''" "''random''" "''1.0.0''" "''linux_amd64''" example_env "''listing''" example_listing
      "\<lparr>Version = ''1.0.0'', Platforms = [\<lparr>OS = ''linux'', Arch = ''amd64''\<rparr>,
                                          \<lparr>OS = ''darwin'', Arch = ''arm64''\<rparr>]\<rparr>"
      "\<lparr>OS = ''linux'', Arch = ''amd64''\<rparr>"]
    store token e f
  show ?thesis by (simp add: fmt_d.simps)
qed

section \<open>Claims about the request router\<close>

text \<open>
  C10. The hostname segment does not matter: two request paths whose segments after
  the prefix \<open>/v1/providers/\<close> differ in the first segment only get the same response from
  \<open>handleProviders\<close>, leave the same cache and send the same requests to the origin.
\<close>

theorem handleProviders_hostname_independent:
  assumes "Split (TrimPrefix p1 ''/v1/providers/'') CHR ''/'' = h1 # rest"
    and "Split (TrimPrefix p2 ''/v1/providers/'') CHR ''/'' = h2 # rest"
  shows "handleProviders e c fs p1 = handleProviders e c fs p2"
  using assms by (simp add: handleProviders_def Let_def)

theorem handleProviders_hostname_independent_witness:
  "handleProviders example_env example_cache []
     ''/v1/providers/registry.terraform.io/hashicorp/random/terraform-provider-random_1.0.0_linux_amd64.zip''
   = handleProviders example_env example_cache []
     ''/v1/providers/mirror.example/hashicorp/random/terraform-provider-random_1.0.0_linux_amd64.zip''"
  using handleProviders_hostname_independent
    [of "''/v1/providers/registry.terraform.io/hashicorp/random/terraform-provider-random_1.0.0_linux_amd64.zip''"
        "''registry.terraform.io''"
        "[''hashicorp'', ''random'', ''terraform-provider-random_1.0.0_linux_amd64.zip'']"
        "''/v1/providers/mirror.example/hashicorp/random/terraform-provider-random_1.0.0_linux_amd64.zip''"
        "''mirror.example''" example_env example_cache "[]"]
  by (simp add: TrimPrefix_def HasPrefix_def)

end
